theory Spec2Isabelle
  imports Complex_Main "HOL-Library.Sublist"
begin

section \<open>JavaScript values used by the PDF editor\<close>

text \<open>
  The editor is TypeScript. Its strings are modelled as \<^typ>\<open>string\<close>, one \<^typ>\<open>char\<close> per
  UTF-16 code unit below 256 (the Latin-1 range); code units above 255 are outside the
  model. A JavaScript number that is used as a page index or as an angle is an integer or
  \<open>NaN\<close>; the integers are unbounded here (exact in JavaScript below \<open>2^53\<close>). Sizes and
  coordinates are IEEE-754 doubles with their rounding, defined below. The scale of a
  thumbnail is only handed to the rasterizer and is written as a real number.
\<close>

datatype number = NaN | Num int

text \<open>
  The exceptions of the model: a buffer that the codec or the rasterizer cannot load, a
  property read or a method call on \<open>undefined\<close>, and a failed assertion of the codec.
\<close>

datatype error = LoadError | TypeError | AssertError

text \<open>\<open>n - 1\<close> on a number: \<open>NaN - 1\<close> is \<open>NaN\<close>.\<close>

fun minus1 :: "number \<Rightarrow> number" where
  "minus1 NaN = NaN"
| "minus1 (Num n) = Num (n - 1)"

text \<open>
  White space as \<open>String.prototype.trim\<close> and \<open>parseInt\<close> strip it (WhiteSpace and
  LineTerminator of ECMAScript), restricted to the code units of the model: TAB, LF, VT, FF,
  CR, SP and NBSP.
\<close>

definition isWhiteSpace :: "char \<Rightarrow> bool" where
  "isWhiteSpace c \<longleftrightarrow>
     c \<in> {CHR 0x09, CHR 0x0A, CHR 0x0B, CHR 0x0C, CHR 0x0D, CHR 0x20, CHR 0xA0}"

definition trim :: "string \<Rightarrow> string" where
  "trim s = rev (dropWhile isWhiteSpace (rev (dropWhile isWhiteSpace s)))"

text \<open>
  \<open>s.split(c)\<close> for a one-character separator: a string with \<open>n\<close> separators gives
  \<open>n + 1\<close> segments, and the empty string gives one empty segment.
\<close>

fun split :: "char \<Rightarrow> string \<Rightarrow> string list" where
  "split c [] = [[]]"
| "split c (x # xs) =
     (if x = c then [] # split c xs
      else (case split c xs of [] \<Rightarrow> [[x]] | y # ys \<Rightarrow> (x # y) # ys))"

text \<open>Array indexing \<open>xs[i]\<close>: \<open>undefined\<close> (here \<open>None\<close>) out of range.\<close>

fun elemAt :: "'a list \<Rightarrow> nat \<Rightarrow> 'a option" where
  "elemAt [] i = None"
| "elemAt (x # xs) 0 = Some x"
| "elemAt (x # xs) (Suc i) = elemAt xs i"

text \<open>
  The value of a character as a digit of \<open>parseInt\<close>: \<open>0\<close> to \<open>9\<close>, then the letters of
  either case from 10 on.
\<close>

definition digitVal :: "char \<Rightarrow> nat option" where
  "digitVal c =
     (let n = (of_char c :: nat) in
      if 48 \<le> n \<and> n \<le> 57 then Some (n - 48)
      else if 97 \<le> n \<and> n \<le> 122 then Some (n - 87)
      else if 65 \<le> n \<and> n \<le> 90 then Some (n - 55)
      else None)"

definition isRadixDigit :: "nat \<Rightarrow> char \<Rightarrow> bool" where
  "isRadixDigit R c = (case digitVal c of None \<Rightarrow> False | Some v \<Rightarrow> v < R)"

definition digitsValue :: "nat \<Rightarrow> string \<Rightarrow> nat" where
  "digitsValue R Z = foldl (\<lambda>acc c. acc * R + (case digitVal c of None \<Rightarrow> 0 | Some v \<Rightarrow> v)) 0 Z"

text \<open>
  \<open>parseInt(string, radix)\<close> of ECMAScript for a radix between 2 and 36: leading white
  space is skipped, one sign is read, a \<open>0x\<close> prefix is skipped for radix 16 only, and the
  longest prefix of digits of the radix is the value; no digit gives \<open>NaN\<close>. What follows the
  digits is ignored.
\<close>

definition parseInt :: "string \<Rightarrow> nat \<Rightarrow> number" where
  "parseInt str R =
     (let S = dropWhile isWhiteSpace str;
          sign = (if take 1 S = ''-'' then (- 1 :: int) else 1);
          S1 = (if take 1 S = ''-'' \<or> take 1 S = ''+'' then drop 1 S else S);
          S2 = (if R = 16 \<and> (take 2 S1 = ''0x'' \<or> take 2 S1 = ''0X'') then drop 2 S1 else S1);
          Z = takeWhile (isRadixDigit R) S2
      in if Z = [] then NaN else Num (sign * int (digitsValue R Z)))"

text \<open>
  \<open>parseInt\<close> applied to a value that may be \<open>undefined\<close>: the argument is converted to
  a string first, and \<open>undefined\<close> becomes the string \<open>undefined\<close>.
\<close>

fun parseIntU :: "string option \<Rightarrow> nat \<Rightarrow> number" where
  "parseIntU None R = parseInt ''undefined'' R"
| "parseIntU (Some s) R = parseInt s R"

section \<open>The range parser of \<open>pdfUtils.ts\<close>\<close>

record MergeRule =
  start :: int
  end' :: int

text \<open>
  \<open>input.split(',').map(s => s.trim()).filter(s => s)\<close>: the tokens of the input; an empty
  string is falsy and is dropped.
\<close>

definition parts :: "string \<Rightarrow> string list" where
  "parts input = filter (\<lambda>s. s \<noteq> []) (map trim (split (CHR '','') input))"

text \<open>
  The body of the loop of \<open>parseMergeRules\<close> for one token: the rules it pushes. The
  destructuring \<open>[startStr, endStr]\<close> reads the first two segments.
\<close>

definition rangeRule :: "int \<Rightarrow> string \<Rightarrow> MergeRule list" where
  "rangeRule maxPage part =
     (let segs = map trim (split (CHR ''-'') part);
          startStr = elemAt segs 0;
          endStr = elemAt segs 1;
          start = minus1 (parseIntU startStr 10);
          end = minus1 (parseIntU endStr 10)
      in (case (start, end) of
            (Num s, Num e) \<Rightarrow>
              if s \<ge> 0 \<and> e < maxPage \<and> s \<le> e then [\<lparr>start = s, end' = e\<rparr>] else []
          | _ \<Rightarrow> []))"

definition pageRule :: "int \<Rightarrow> string \<Rightarrow> MergeRule list" where
  "pageRule maxPage part =
     (case minus1 (parseInt part 10) of
        Num pageNum \<Rightarrow>
          if pageNum \<ge> 0 \<and> pageNum < maxPage then [\<lparr>start = pageNum, end' = pageNum\<rparr>] else []
      | NaN \<Rightarrow> [])"

definition partRules :: "int \<Rightarrow> string \<Rightarrow> MergeRule list" where
  "partRules maxPage part =
     (if CHR ''-'' \<in> set part then rangeRule maxPage part else pageRule maxPage part)"

definition parseMergeRules :: "string \<Rightarrow> int \<Rightarrow> MergeRule list" where
  "parseMergeRules input maxPage =
     foldl (\<lambda>rules part. rules @ partRules maxPage part) [] (parts input)"

text \<open>
  The tokens that the specification says are dropped, in its words: a range token one side
  of which fails to parse as an integer, or with \<open>start < 0\<close>, \<open>end \<ge> maxPage\<close> or
  \<open>start > end\<close> after the conversion to zero-based indices; a single-page token that
  fails to parse or is outside \<open>[0, maxPage)\<close>. The sides of a range token are its first
  two hyphen-separated segments, and parsing is \<open>parseInt\<close>.
\<close>

definition unusable :: "int \<Rightarrow> string \<Rightarrow> bool" where
  "unusable maxPage part =
     (if CHR ''-'' \<in> set part then
        (let segs = map trim (split (CHR ''-'') part) in
         case (parseIntU (elemAt segs 0) 10, parseIntU (elemAt segs 1) 10) of
           (Num a, Num b) \<Rightarrow> a - 1 < 0 \<or> b - 1 \<ge> maxPage \<or> a - 1 > b - 1
         | _ \<Rightarrow> True)
      else
        (case parseInt part 10 of
           Num a \<Rightarrow> a - 1 < 0 \<or> a - 1 \<ge> maxPage
         | NaN \<Rightarrow> True))"

text \<open>
  The parser once more, with the places where JavaScript can raise written out. The only
  operation of the function that can raise is a method call, which is a \<open>TypeError\<close> when
  its receiver is \<open>undefined\<close>; \<open>parseInt\<close>, \<open>isNaN\<close>, the arithmetic, the comparisons, the
  destructuring of an array and \<open>push\<close> return for every argument. \<open>invoke\<close> is a method
  call, \<open>mapE\<close> is \<open>Array.prototype.map\<close> with a callback that may raise, and the receivers
  are the ones of the source: the parameter \<open>input\<close>, the elements \<open>s\<close> that \<open>map\<close> hands to
  its callback, and the loop variable \<open>part\<close>.
\<close>

definition invoke :: "'r option \<Rightarrow> ('r \<Rightarrow> 'a) \<Rightarrow> error + 'a" where
  "invoke receiver m = (case receiver of None \<Rightarrow> Inl TypeError | Some r \<Rightarrow> Inr (m r))"

fun mapE :: "('a \<Rightarrow> error + 'b) \<Rightarrow> 'a list \<Rightarrow> error + 'b list" where
  "mapE f [] = Inr []"
| "mapE f (x # xs) =
     (case f x of
        Inl e \<Rightarrow> Inl e
      | Inr y \<Rightarrow> (case mapE f xs of Inl e \<Rightarrow> Inl e | Inr ys \<Rightarrow> Inr (y # ys)))"

definition partRulesE :: "int \<Rightarrow> string \<Rightarrow> error + MergeRule list" where
  "partRulesE maxPage part =
     (case invoke (Some part) (\<lambda>p. CHR ''-'' \<in> set p) of
        Inl e \<Rightarrow> Inl e
      | Inr hyphen \<Rightarrow>
          if hyphen then
            (case invoke (Some part) (split (CHR ''-'')) of
               Inl e \<Rightarrow> Inl e
             | Inr pieces \<Rightarrow>
                 (case mapE (\<lambda>s. invoke (Some s) trim) pieces of
                    Inl e \<Rightarrow> Inl e
                  | Inr segs \<Rightarrow>
                      (let startStr = elemAt segs 0;
                           endStr = elemAt segs 1;
                           start = minus1 (parseIntU startStr 10);
                           end = minus1 (parseIntU endStr 10)
                       in Inr (case (start, end) of
                                 (Num s, Num e) \<Rightarrow>
                                   if s \<ge> 0 \<and> e < maxPage \<and> s \<le> e
                                   then [\<lparr>start = s, end' = e\<rparr>] else []
                               | _ \<Rightarrow> []))))
          else Inr (pageRule maxPage part))"

fun loopE :: "int \<Rightarrow> MergeRule list \<Rightarrow> string list \<Rightarrow> error + MergeRule list" where
  "loopE maxPage rules [] = Inr rules"
| "loopE maxPage rules (part # rest) =
     (case partRulesE maxPage part of
        Inl e \<Rightarrow> Inl e
      | Inr pushed \<Rightarrow> loopE maxPage (rules @ pushed) rest)"

definition parseMergeRulesE :: "string \<Rightarrow> int \<Rightarrow> error + MergeRule list" where
  "parseMergeRulesE input maxPage =
     (case invoke (Some input) (split (CHR '','')) of
        Inl e \<Rightarrow> Inl e
      | Inr pieces \<Rightarrow>
          (case mapE (\<lambda>s. invoke (Some s) trim) pieces of
             Inl e \<Rightarrow> Inl e
           | Inr trimmed \<Rightarrow> loopE maxPage [] (filter (\<lambda>s. s \<noteq> []) trimmed)))"

section \<open>The arithmetic of JavaScript numbers\<close>

text \<open>
  Sizes and coordinates are JavaScript numbers with fractions: IEEE-754 binary64 values.
  A double is \<open>NaN\<close>, an infinity with its sign, or a finite value given by its sign
  (\<open>True\<close> for negative) and its magnitude, a rational; magnitude 0 gives the two zeros.
  The finite doubles are the magnitudes \<open>k * 2^(e - 52)\<close> with \<open>k < 2^53\<close> and
  \<open>-1022 \<le> e \<le> 1023\<close>.
\<close>

datatype double = DNaN | DInf bool | DFin bool rat

text \<open>
  The number of binary digits of a natural number, and with it the exponent of a positive
  rational \<open>m\<close>: the integer \<open>e\<close> with \<open>2^e \<le> m < 2^(e + 1)\<close>.
\<close>

fun bitLength :: "nat \<Rightarrow> nat" where
  "bitLength n = (if n = 0 then 0 else Suc (bitLength (n div 2)))"

declare bitLength.simps [simp del]

definition exponent :: "rat \<Rightarrow> int" where
  "exponent m =
     (let a = fst (quotient_of m); b = snd (quotient_of m);
          k = int (bitLength (nat a)) - int (bitLength (nat b))
      in if power_int 2 k \<le> m then k else k - 1)"

text \<open>Rounding to the nearest integer, a tie to the even one.\<close>

definition roundEven :: "rat \<Rightarrow> int" where
  "roundEven n =
     (let f = \<lfloor>n\<rfloor>; d = n - of_int f
      in if d < 1 / 2 then f
         else if d > 1 / 2 then f + 1
         else if even f then f else f + 1)"

text \<open>
  The result of an operation whose exact value has sign \<open>s\<close> and magnitude \<open>m\<close>, in the
  rounding mode of JavaScript (to nearest, ties to even): the magnitude is rounded to a
  multiple of the spacing of the doubles at \<open>m\<close>, which is \<open>2^(e - 52)\<close> for the exponent
  \<open>e\<close> of \<open>m\<close> and \<open>2^(-1074)\<close> below \<open>2^(-1022)\<close>; a result of \<open>2^1024\<close> or more is an
  infinity, and a result that rounds to 0 keeps its sign.
\<close>

definition rnd :: "bool \<Rightarrow> rat \<Rightarrow> double" where
  "rnd s m =
     (if m \<le> 0 then DFin s 0
      else
        (let e = max (exponent m) (- 1022);
             q = power_int 2 (e - 52);
             mag = of_int (roundEven (m / q)) * q
         in if mag \<ge> power_int 2 1024 then DInf s else DFin s mag))"

text \<open>The double of a rational literal, and the value of a finite double.\<close>

definition dbl :: "rat \<Rightarrow> double" where
  "dbl r = (if r < 0 then rnd True (- r) else rnd False r)"

definition signed :: "bool \<Rightarrow> rat \<Rightarrow> rat" where
  "signed s m = (if s then - m else m)"

text \<open>
  The operators \<open>*\<close>, \<open>/\<close>, \<open>+\<close> and \<open>-\<close> on doubles. \<open>NaN\<close> is contagious; \<open>0 * Infinity\<close>,
  \<open>Infinity / Infinity\<close>, \<open>0 / 0\<close> and \<open>Infinity - Infinity\<close> are \<open>NaN\<close>; a finite value
  divided by zero is an infinity; the sign of a product or quotient is the exclusive or
  of the signs; a sum that is exactly zero is \<open>-0\<close> only when both operands are negative.
\<close>

fun dneg :: "double \<Rightarrow> double" where
  "dneg DNaN = DNaN"
| "dneg (DInf s) = DInf (\<not> s)"
| "dneg (DFin s m) = DFin (\<not> s) m"

fun dmul :: "double \<Rightarrow> double \<Rightarrow> double" where
  "dmul (DInf s) (DInf t) = DInf (s \<noteq> t)"
| "dmul (DInf s) (DFin t n) = (if n = 0 then DNaN else DInf (s \<noteq> t))"
| "dmul (DFin s m) (DInf t) = (if m = 0 then DNaN else DInf (s \<noteq> t))"
| "dmul (DFin s m) (DFin t n) = rnd (s \<noteq> t) (m * n)"
| "dmul DNaN y = DNaN"
| "dmul x DNaN = DNaN"

fun ddiv :: "double \<Rightarrow> double \<Rightarrow> double" where
  "ddiv (DInf s) (DInf t) = DNaN"
| "ddiv (DInf s) (DFin t n) = DInf (s \<noteq> t)"
| "ddiv (DFin s m) (DInf t) = DFin (s \<noteq> t) 0"
| "ddiv (DFin s m) (DFin t n) =
     (if n = 0 then (if m = 0 then DNaN else DInf (s \<noteq> t)) else rnd (s \<noteq> t) (m / n))"
| "ddiv DNaN y = DNaN"
| "ddiv x DNaN = DNaN"

fun dadd :: "double \<Rightarrow> double \<Rightarrow> double" where
  "dadd (DInf s) (DInf t) = (if s = t then DInf s else DNaN)"
| "dadd (DInf s) (DFin t n) = DInf s"
| "dadd (DFin s m) (DInf t) = DInf t"
| "dadd (DFin s m) (DFin t n) =
     (let v = signed s m + signed t n
      in if v = 0 then DFin (s \<and> t) 0 else rnd (v < 0) \<bar>v\<bar>)"
| "dadd DNaN y = DNaN"
| "dadd x DNaN = DNaN"

definition dsub :: "double \<Rightarrow> double \<Rightarrow> double" where
  "dsub x y = dadd x (dneg y)"

text \<open>The magnitudes of the finite doubles: the rationals that rounding leaves as they are.\<close>

definition representable :: "rat \<Rightarrow> bool" where
  "representable m \<longleftrightarrow> 0 \<le> m \<and> rnd False m = DFin False m"

text \<open>
  The measure of rounding error: \<open>m\<close> is the exact value \<open>v\<close> after at most \<open>k\<close> roundings,
  each of which changes a value by a factor between \<open>1 - 2^(-53)\<close> and \<open>1 + 2^(-53)\<close>. A
  rounding has this accuracy on the normal doubles; \<open>normalRange\<close> leaves a factor of two
  to either end of them, so that a value that is a few roundings away from one in the
  range is a normal double too.
\<close>

definition roundings :: "nat \<Rightarrow> rat \<Rightarrow> rat \<Rightarrow> bool" where
  "roundings k v m \<longleftrightarrow> v * (1 - 1 / 2 ^ 53) ^ k \<le> m \<and> m \<le> v * (1 + 1 / 2 ^ 53) ^ k"

definition normalRange :: "rat \<Rightarrow> bool" where
  "normalRange m \<longleftrightarrow> power_int 2 (- 1021) \<le> m \<and> m < power_int 2 1022"

section \<open>The PDF codec and the page rasterizer\<close>

text \<open>
  Modelled from the spec: the PDF codec (\<open>pdf-lib\<close>) and the page rasterizer (\<open>pdfjs-dist\<close>)
  are third-party libraries, not part of the repository. Their contract is the one of the
  specification (External Interfaces): \<open>load\<close> turns bytes into an editable page collection
  or fails, pages carry a rotation angle, a size and a crop box and can be drawn on,
  \<open>copyPages\<close> copies the pages at the given indices of a source document, \<open>addPage\<close>
  appends a page and \<open>save\<close> serializes. \<open>setRotation\<close> takes an angle that is a multiple
  of 90, as the specification gives it, and raises on any other angle: this is the
  assertion of the codec. A byte buffer is modelled by what the codec reads
  from it: nothing, for bytes that are not a PDF, or the sequence of its pages; a saved
  document loads as the pages that were saved. The rasterizer is a parameter \<open>rz\<close> of the
  functions that render: the image of a page at a scale.
\<close>

record drawnText =
  dtext :: string
  dx :: double
  dy :: double
  dsize :: double
  dcolor :: "double \<times> double \<times> double"

record pdfPage =
  body :: nat
  getSize :: "double \<times> double"
  angle :: int
  cropRect :: "(double \<times> double \<times> double \<times> double) option"
  drawn :: "drawnText list"

datatype arrayBuffer = NotPdf | Pdf "pdfPage list"

fun load :: "arrayBuffer \<Rightarrow> error + pdfPage list" where
  "load NotPdf = Inl LoadError"
| "load (Pdf ps) = Inr ps"

definition save :: "pdfPage list \<Rightarrow> arrayBuffer" where
  "save ps = Pdf ps"

definition addPage :: "pdfPage list \<Rightarrow> pdfPage \<Rightarrow> pdfPage list" where
  "addPage doc p = doc @ [p]"

text \<open>
  A number used as an index into an array of length \<open>len\<close>: the position it selects, or
  none when it is \<open>NaN\<close>, negative or not below the length. \<open>pages[i]\<close> is then the page at
  that position, or \<open>undefined\<close> (here \<open>None\<close>).
\<close>

fun arrayIndex :: "nat \<Rightarrow> number \<Rightarrow> nat option" where
  "arrayIndex len NaN = None"
| "arrayIndex len (Num i) = (if 0 \<le> i \<and> i < int len then Some (nat i) else None)"

definition pageAt :: "'a list \<Rightarrow> number \<Rightarrow> 'a option" where
  "pageAt ps i = map_option (\<lambda>k. ps ! k) (arrayIndex (length ps) i)"

text \<open>
  \<open>copyPages(src, indices)\<close> reads \<open>srcPages[indices[k]].node\<close> for each index in turn:
  an index that selects no page is a \<open>TypeError\<close>.
\<close>

fun copyPages :: "pdfPage list \<Rightarrow> number list \<Rightarrow> error + pdfPage list" where
  "copyPages src [] = Inr []"
| "copyPages src (i # is) =
     (case pageAt src i of
        None \<Rightarrow> Inl TypeError
      | Some p \<Rightarrow> (case copyPages src is of Inl e \<Rightarrow> Inl e | Inr ps \<Rightarrow> Inr (p # ps)))"

text \<open>\<open>loadPDFDocument\<close> followed by \<open>numPages\<close>, and the thumbnails of all pages.\<close>

fun getPageCount :: "arrayBuffer \<Rightarrow> error + nat" where
  "getPageCount NotPdf = Inl LoadError"
| "getPageCount (Pdf ps) = Inr (length ps)"

fun generateThumbnails ::
  "(real \<Rightarrow> pdfPage \<Rightarrow> string) \<Rightarrow> arrayBuffer \<Rightarrow> real \<Rightarrow> error + string list" where
  "generateThumbnails rz NotPdf scale = Inl LoadError"
| "generateThumbnails rz (Pdf ps) scale = Inr (map (rz scale) ps)"

section \<open>The document operations of \<open>pdfUtils.ts\<close>\<close>

text \<open>
  \<open>page.setRotation(degrees(a))\<close> of the codec: the angle is stored when it is a multiple
  of 90 (\<open>a % 90 === 0\<close>), and the call raises otherwise.
\<close>

definition setRotation :: "pdfPage \<Rightarrow> int \<Rightarrow> error + pdfPage" where
  "setRotation page a = (if a mod 90 = 0 then Inr (page\<lparr>angle := a\<rparr>) else Inl AssertError)"

text \<open>
  Every operation loads the buffer, edits the transient page collection and saves it. The
  body of the \<open>forEach\<close> of \<open>rotatePages\<close> is \<open>rotateOne\<close>: \<open>NaN >= 0\<close> is false. An
  exception of \<open>setRotation\<close> leaves the \<open>forEach\<close> and the function: \<open>rotateEach\<close> is the
  \<open>forEach\<close>.
\<close>

fun rotateOne :: "int \<Rightarrow> pdfPage list \<Rightarrow> number \<Rightarrow> error + pdfPage list" where
  "rotateOne degrees pages NaN = Inr pages"
| "rotateOne degrees pages (Num pageIndex) =
     (if pageIndex \<ge> 0 \<and> pageIndex < int (length pages) then
        (let currentRotation = angle (pages ! nat pageIndex)
         in case setRotation (pages ! nat pageIndex) (currentRotation + degrees) of
              Inl e \<Rightarrow> Inl e
            | Inr page \<Rightarrow> Inr (pages[nat pageIndex := page]))
      else Inr pages)"

fun rotateEach :: "int \<Rightarrow> pdfPage list \<Rightarrow> number list \<Rightarrow> error + pdfPage list" where
  "rotateEach degrees pages [] = Inr pages"
| "rotateEach degrees pages (pageIndex # pageIndices) =
     (case rotateOne degrees pages pageIndex of
        Inl e \<Rightarrow> Inl e
      | Inr pages' \<Rightarrow> rotateEach degrees pages' pageIndices)"

definition rotatePages :: "arrayBuffer \<Rightarrow> number list \<Rightarrow> int \<Rightarrow> error + arrayBuffer" where
  "rotatePages buf pageIndices degrees =
     (case load buf of
        Inl e \<Rightarrow> Inl e
      | Inr pages \<Rightarrow>
          (case rotateEach degrees pages pageIndices of
             Inl e \<Rightarrow> Inl e
           | Inr pages' \<Rightarrow> Inr (save pages')))"

definition extractPages :: "arrayBuffer \<Rightarrow> number list \<Rightarrow> error + arrayBuffer" where
  "extractPages buf pageIndices =
     (case load buf of
        Inl e \<Rightarrow> Inl e
      | Inr sourcePdf \<Rightarrow>
          (case copyPages sourcePdf pageIndices of
             Inl e \<Rightarrow> Inl e
           | Inr copiedPages \<Rightarrow> Inr (save (foldl addPage [] copiedPages))))"

definition reorderPages :: "arrayBuffer \<Rightarrow> number list \<Rightarrow> error + arrayBuffer" where
  "reorderPages buf newOrder =
     (case load buf of
        Inl e \<Rightarrow> Inl e
      | Inr sourcePdf \<Rightarrow>
          (case copyPages sourcePdf newOrder of
             Inl e \<Rightarrow> Inl e
           | Inr copiedPages \<Rightarrow> Inr (save (foldl addPage [] copiedPages))))"

text \<open>
  \<open>splitPDF\<close>: the inner loop collects \<open>start, start + 1, ..., end\<close>; the first failing
  range aborts the whole call.
\<close>

fun splitRanges :: "pdfPage list \<Rightarrow> MergeRule list \<Rightarrow> error + arrayBuffer list" where
  "splitRanges sourcePdf [] = Inr []"
| "splitRanges sourcePdf (rng # ranges) =
     (let pageIndices = map Num [start rng..end' rng]
      in case copyPages sourcePdf pageIndices of
           Inl e \<Rightarrow> Inl e
         | Inr copiedPages \<Rightarrow>
             (case splitRanges sourcePdf ranges of
                Inl e \<Rightarrow> Inl e
              | Inr results \<Rightarrow> Inr (save (foldl addPage [] copiedPages) # results)))"

definition splitPDF :: "arrayBuffer \<Rightarrow> MergeRule list \<Rightarrow> error + arrayBuffer list" where
  "splitPDF buf ranges =
     (case load buf of Inl e \<Rightarrow> Inl e | Inr sourcePdf \<Rightarrow> splitRanges sourcePdf ranges)"

text \<open>
  \<open>mergePDFs\<close>: \<open>getPageIndices\<close> is \<open>0, ..., n - 1\<close>; the loop threads the merged document.
\<close>

fun mergeInto :: "pdfPage list \<Rightarrow> arrayBuffer list \<Rightarrow> error + pdfPage list" where
  "mergeInto mergedPdf [] = Inr mergedPdf"
| "mergeInto mergedPdf (buffer # buffers) =
     (case load buffer of
        Inl e \<Rightarrow> Inl e
      | Inr pdf \<Rightarrow>
          (let pageIndices = map (\<lambda>i. Num (int i)) [0..<length pdf]
           in case copyPages pdf pageIndices of
                Inl e \<Rightarrow> Inl e
              | Inr copiedPages \<Rightarrow> mergeInto (foldl addPage mergedPdf copiedPages) buffers))"

definition mergePDFs :: "arrayBuffer list \<Rightarrow> error + arrayBuffer" where
  "mergePDFs arrayBuffers =
     (case mergeInto [] arrayBuffers of Inl e \<Rightarrow> Inl e | Inr mergedPdf \<Rightarrow> Inr (save mergedPdf))"

record CropBox =
  cx :: double
  cy :: double
  cwidth :: double
  cheight :: double

text \<open>
  \<open>cropPage\<close>: the rectangle that is handed to \<open>setCropBox\<close>, from the size of the page and
  the size of the preview, and the operation itself. \<open>pages[pageIndex]\<close> that selects no
  page makes \<open>page.getSize()\<close> a \<open>TypeError\<close>.
\<close>

definition cropRectOf ::
  "double \<times> double \<Rightarrow> CropBox \<Rightarrow> double \<Rightarrow> double \<Rightarrow> double \<times> double \<times> double \<times> double" where
  "cropRectOf sz cropBox pageWidth pageHeight =
     (let width = fst sz; height = snd sz;
          scaleX = ddiv width pageWidth;
          scaleY = ddiv height pageHeight;
          x = dmul (cx cropBox) scaleX;
          y = dsub height (dmul (dadd (cy cropBox) (cheight cropBox)) scaleY);
          w = dmul (cwidth cropBox) scaleX;
          h = dmul (cheight cropBox) scaleY
      in (x, y, w, h))"

definition cropPage ::
  "arrayBuffer \<Rightarrow> number \<Rightarrow> CropBox \<Rightarrow> double \<Rightarrow> double \<Rightarrow> error + arrayBuffer" where
  "cropPage buf pageIndex cropBox pageWidth pageHeight =
     (case load buf of
        Inl e \<Rightarrow> Inl e
      | Inr pages \<Rightarrow>
          (case arrayIndex (length pages) pageIndex of
             None \<Rightarrow> Inl TypeError
           | Some k \<Rightarrow>
               (let page = pages ! k;
                    rect = cropRectOf (getSize page) cropBox pageWidth pageHeight
                in Inr (save (pages[k := page\<lparr>cropRect := Some rect\<rparr>])))))"

record TextAnnotation =
  annId :: string
  atext :: string
  ax :: double
  ay :: double
  fontSize :: double
  fontFamily :: string
  color :: string
  arotation :: double
  awidth :: double
  aheight :: double

text \<open>
  \<open>s.replace(pat, rep)\<close> with a string pattern replaces the first occurrence only.
\<close>

fun replace :: "string \<Rightarrow> string \<Rightarrow> string \<Rightarrow> string" where
  "replace pat rep [] = (if pat = [] then rep else [])"
| "replace pat rep (c # cs) =
     (if prefix pat (c # cs) then rep @ drop (length pat) (c # cs)
      else c # replace pat rep cs)"

text \<open>
  \<open>addTextToPage\<close>: one colour channel is \<open>parseInt(hex, 16) / 255\<close>, which is \<open>NaN\<close> when
  the two characters do not start with a hexadecimal digit; \<open>drawAnnotation\<close> is the body
  of the loop.
\<close>

definition channel :: "string \<Rightarrow> double" where
  "channel hex =
     (case parseInt hex 16 of NaN \<Rightarrow> DNaN | Num n \<Rightarrow> ddiv (dbl (of_int n)) (dbl 255))"

definition drawAnnotation :: "double \<Rightarrow> pdfPage \<Rightarrow> TextAnnotation \<Rightarrow> pdfPage" where
  "drawAnnotation height page annotation =
     (let hexColor = replace ''#'' [] (color annotation);
          r = channel (take 2 hexColor);
          g = channel (take 2 (drop 2 hexColor));
          b = channel (take 2 (drop 4 hexColor))
      in page\<lparr>drawn := drawn page @
           [\<lparr>dtext = atext annotation,
             dx = ax annotation,
             dy = dsub (dsub height (ay annotation)) (fontSize annotation),
             dsize = fontSize annotation,
             dcolor = (r, g, b)\<rparr>]\<rparr>)"

definition addTextToPage ::
  "arrayBuffer \<Rightarrow> number \<Rightarrow> TextAnnotation list \<Rightarrow> error + arrayBuffer" where
  "addTextToPage buf pageIndex annotations =
     (case load buf of
        Inl e \<Rightarrow> Inl e
      | Inr pages \<Rightarrow>
          (case arrayIndex (length pages) pageIndex of
             None \<Rightarrow> Inl TypeError
           | Some k \<Rightarrow>
               (let height = snd (getSize (pages ! k))
                in Inr (save (pages[k := foldl (drawAnnotation height) (pages ! k) annotations])))))"

section \<open>The page model\<close>

record PDFPageData =
  pageIndex :: nat
  rotation :: int
  thumbnail :: "string option"
  selected :: bool
  textAnnotations :: "TextAnnotation list"
  cropBox :: "CropBox option"

definition initializePages :: "nat \<Rightarrow> PDFPageData list" where
  "initializePages pageCount =
     map (\<lambda>i. \<lparr>pageIndex = i, rotation = 0, thumbnail = None, selected = False,
               textAnnotations = [], cropBox = None\<rparr>) [0..<pageCount]"

section \<open>The editor state and the handlers of \<open>App.tsx\<close>\<close>

record PDFDocument =
  docId :: string
  name :: string
  arrayBuffer :: arrayBuffer
  pageCount :: nat
  pages :: "PDFPageData list"

text \<open>
  The React state that the handlers read and write. The selection \<open>Set<string>\<close> keeps
  insertion order and is a list without duplicates. The loading flag, the editor mode and
  the preview image are left out: no handler below branches on them.
\<close>

record App =
  documents :: "PDFDocument list"
  activeDocId :: "string option"
  activePageIndex :: "nat option"
  selectedPages :: "string list"
  currentAnnotations :: "TextAnnotation list"
  cropBoxState :: "CropBox option"
  pageSize :: "double \<times> double"

text \<open>The state of the component when it is mounted (the arguments of \<open>useState\<close>).\<close>

definition initialApp :: App where
  "initialApp =
     \<lparr>documents = [], activeDocId = None, activePageIndex = None, selectedPages = [],
      currentAnnotations = [], cropBoxState = None,
      pageSize = (DFin False 0, DFin False 0)\<rparr>"

text \<open>A non-negative integer in a template literal: its decimal digits.\<close>

fun showNat :: "nat \<Rightarrow> string" where
  "showNat n =
     (if n < 10 then [char_of (48 + n)]
      else showNat (n div 10) @ [char_of (48 + n mod 10)])"

declare showNat.simps [simp del]

text \<open>The selection key \<open>`${docId}-${pageIndex}`\<close>.\<close>

definition selectionKey :: "string \<Rightarrow> nat \<Rightarrow> string" where
  "selectionKey d i = d @ ''-'' @ showNat i"

definition activeDoc :: "App \<Rightarrow> PDFDocument option" where
  "activeDoc st =
     (case activeDocId st of
        None \<Rightarrow> None
      | Some a \<Rightarrow> find (\<lambda>d. docId d = a) (documents st))"

definition togglePageSelection :: "App \<Rightarrow> string \<Rightarrow> nat \<Rightarrow> App" where
  "togglePageSelection st d i =
     (let key = selectionKey d i
      in if key \<in> set (selectedPages st)
         then st\<lparr>selectedPages := filter (\<lambda>k. k \<noteq> key) (selectedPages st)\<rparr>
         else st\<lparr>selectedPages := selectedPages st @ [key]\<rparr>)"

text \<open>
  The selection filter of \<open>handleRotate\<close> and \<open>handleDeletePages\<close>:
  \<open>Array.from(selectedPages).filter(key => key.startsWith(activeDoc.id))
    .map(key => parseInt(key.split('-')[1], 10))\<close>.
\<close>

definition selectedIndices :: "string \<Rightarrow> string list \<Rightarrow> number list" where
  "selectedIndices activeId sel =
     map (\<lambda>key. parseIntU (elemAt (split (CHR ''-'') key) 1) 10)
       (filter (\<lambda>key. prefix activeId key) sel)"

text \<open>
  \<open>setDocuments(prev => prev.map(doc => doc.id !== activeDoc.id ? doc : f(doc)))\<close>, and
  \<open>thumbnails[i]\<close> stored into page \<open>i\<close>.
\<close>

definition updateDoc ::
  "string \<Rightarrow> (PDFDocument \<Rightarrow> PDFDocument) \<Rightarrow> PDFDocument list \<Rightarrow> PDFDocument list" where
  "updateDoc a f prev = map (\<lambda>doc. if docId doc \<noteq> a then doc else f doc) prev"

definition withThumbnails :: "string list \<Rightarrow> PDFPageData list \<Rightarrow> PDFPageData list" where
  "withThumbnails thumbnails ps =
     map (\<lambda>(i, page). page\<lparr>thumbnail := elemAt thumbnails i\<rparr>) (enumerate 0 ps)"

text \<open>
  \<open>handleFileUpload\<close>. A file carries the identifier that \<open>crypto.randomUUID()\<close> returns
  for it. A file that is not a PDF by its type is skipped; a failure of the rasterizer on
  one file is caught outside the loop, and no document is added.
\<close>

record uploadedFile =
  ftype :: string
  fname :: string
  contents :: arrayBuffer
  uuid :: string

fun loadFiles ::
  "(real \<Rightarrow> pdfPage \<Rightarrow> string) \<Rightarrow> uploadedFile list \<Rightarrow> error + PDFDocument list" where
  "loadFiles rz [] = Inr []"
| "loadFiles rz (file # files) =
     (if ftype file \<noteq> ''application/pdf'' then loadFiles rz files
      else
        (case getPageCount (contents file) of
           Inl e \<Rightarrow> Inl e
         | Inr n \<Rightarrow>
             (case generateThumbnails rz (contents file) 0.3 of
                Inl e \<Rightarrow> Inl e
              | Inr thumbnails \<Rightarrow>
                  (case loadFiles rz files of
                     Inl e \<Rightarrow> Inl e
                   | Inr newDocs \<Rightarrow>
                       Inr (\<lparr>docId = uuid file,
                             name = replace ''.pdf'' [] (fname file),
                             arrayBuffer = contents file,
                             pageCount = n,
                             pages = withThumbnails thumbnails (initializePages n)\<rparr>
                            # newDocs)))))"

definition handleFileUpload ::
  "(real \<Rightarrow> pdfPage \<Rightarrow> string) \<Rightarrow> App \<Rightarrow> uploadedFile list \<Rightarrow> App" where
  "handleFileUpload rz st files =
     (if files = [] then st
      else
        (case loadFiles rz files of
           Inl e \<Rightarrow> st
         | Inr newDocs \<Rightarrow>
             st\<lparr>documents := documents st @ newDocs,
                activeDocId :=
                  (if newDocs \<noteq> [] \<and> (activeDocId st = None \<or> activeDocId st = Some [])
                   then Some (docId (hd newDocs)) else activeDocId st)\<rparr>))"

text \<open>
  \<open>handleRotate\<close>: a failure of \<open>rotatePages\<close> or of the thumbnails is caught and leaves the
  state as it was. \<open>pageIndices.includes(i)\<close> compares the position \<open>i\<close> with the numbers
  of the list.
\<close>

definition handleRotate :: "(real \<Rightarrow> pdfPage \<Rightarrow> string) \<Rightarrow> App \<Rightarrow> int \<Rightarrow> App" where
  "handleRotate rz st degrees =
     (case activeDoc st of
        None \<Rightarrow> st
      | Some active \<Rightarrow>
          if selectedPages st = [] then st
          else
            (let pageIndices = selectedIndices (docId active) (selectedPages st)
             in case rotatePages (arrayBuffer active) pageIndices degrees of
                  Inl e \<Rightarrow> st
                | Inr newBuffer \<Rightarrow>
                    (case generateThumbnails rz newBuffer 0.3 of
                       Inl e \<Rightarrow> st
                     | Inr thumbnails \<Rightarrow>
                         st\<lparr>documents :=
                           updateDoc (docId active)
                             (\<lambda>doc. doc\<lparr>arrayBuffer := newBuffer,
                                   pages :=
                                     map (\<lambda>(i, page).
                                            page\<lparr>thumbnail := elemAt thumbnails i,
                                                 rotation :=
                                                   (if Num (int i) \<in> set pageIndices
                                                    then rotation page + degrees
                                                    else rotation page)\<rparr>)
                                       (enumerate 0 (pages doc))\<rparr>)
                             (documents st)\<rparr>)))"

text \<open>
  \<open>handleDeletePages\<close>: the check against \<open>pageCount\<close> comes before any call of the
  codec.
\<close>

definition handleDeletePages :: "(real \<Rightarrow> pdfPage \<Rightarrow> string) \<Rightarrow> App \<Rightarrow> App" where
  "handleDeletePages rz st =
     (case activeDoc st of
        None \<Rightarrow> st
      | Some active \<Rightarrow>
          if selectedPages st = [] then st
          else
            (let pageIndicesToDelete = selectedIndices (docId active) (selectedPages st)
             in if length pageIndicesToDelete = pageCount active then st
                else
                  (let remainingIndices =
                         filter (\<lambda>i. Num (int i) \<notin> set pageIndicesToDelete)
                           [0..<length (pages active)]
                   in case extractPages (arrayBuffer active)
                             (map (\<lambda>i. Num (int i)) remainingIndices) of
                        Inl e \<Rightarrow> st
                      | Inr newBuffer \<Rightarrow>
                          (case generateThumbnails rz newBuffer 0.3 of
                             Inl e \<Rightarrow> st
                           | Inr thumbnails \<Rightarrow>
                               (let newPages =
                                      withThumbnails thumbnails
                                        (initializePages (length remainingIndices))
                                in st\<lparr>documents :=
                                        updateDoc (docId active)
                                          (\<lambda>doc. doc\<lparr>arrayBuffer := newBuffer,
                                                pageCount := length remainingIndices,
                                                pages := newPages\<rparr>)
                                          (documents st),
                                      selectedPages := []\<rparr>)))))"

text \<open>
  \<open>Array.prototype.splice\<close> as \<open>handleMovePage\<close> uses it. The start of a splice is
  relative to the end when negative and is clamped to the length. \<open>movePermutation\<close> is
  \<open>newOrder\<close> after the two splices; when the first splice removes nothing, \<open>removed\<close> is
  \<open>undefined\<close>, written \<open>NaN\<close> here: both select no page.
\<close>

definition spliceStart :: "int \<Rightarrow> nat \<Rightarrow> nat" where
  "spliceStart i len = (if i < 0 then nat (max (int len + i) 0) else min (nat i) len)"

definition movePermutation :: "nat \<Rightarrow> int \<Rightarrow> int \<Rightarrow> number list" where
  "movePermutation n fromIndex toIndex =
     (let newOrder = map (\<lambda>i. Num (int i)) [0..<n];
          k = spliceStart fromIndex (length newOrder);
          removed = (case elemAt newOrder k of None \<Rightarrow> NaN | Some r \<Rightarrow> r);
          rest = take k newOrder @ drop (Suc k) newOrder;
          j = spliceStart toIndex (length rest)
      in take j rest @ [removed] @ drop j rest)"

definition handleMovePage ::
  "(real \<Rightarrow> pdfPage \<Rightarrow> string) \<Rightarrow> App \<Rightarrow> int \<Rightarrow> int \<Rightarrow> App" where
  "handleMovePage rz st fromIndex toIndex =
     (case activeDoc st of
        None \<Rightarrow> st
      | Some active \<Rightarrow>
          if fromIndex = toIndex then st
          else
            (let newOrder = movePermutation (length (pages active)) fromIndex toIndex
             in case reorderPages (arrayBuffer active) newOrder of
                  Inl e \<Rightarrow> st
                | Inr newBuffer \<Rightarrow>
                    (case generateThumbnails rz newBuffer 0.3 of
                       Inl e \<Rightarrow> st
                     | Inr thumbnails \<Rightarrow>
                         (let newPages =
                                withThumbnails thumbnails (initializePages (pageCount active))
                          in st\<lparr>documents :=
                                  updateDoc (docId active)
                                    (\<lambda>doc. doc\<lparr>arrayBuffer := newBuffer, pages := newPages\<rparr>)
                                    (documents st)\<rparr>))))"

text \<open>
  \<open>applyCrop\<close> and \<open>saveAnnotations\<close>, the two mutations of the page editor. The preview
  that is rendered again afterwards is not part of the state modelled here.
\<close>

definition applyCrop :: "(real \<Rightarrow> pdfPage \<Rightarrow> string) \<Rightarrow> App \<Rightarrow> App" where
  "applyCrop rz st =
     (case (activeDoc st, activePageIndex st, cropBoxState st) of
        (Some active, Some pageIx, Some box) \<Rightarrow>
          (case cropPage (arrayBuffer active) (Num (int pageIx)) box
                  (fst (pageSize st)) (snd (pageSize st)) of
             Inl e \<Rightarrow> st
           | Inr newBuffer \<Rightarrow>
               (case generateThumbnails rz newBuffer 0.3 of
                  Inl e \<Rightarrow> st
                | Inr thumbnails \<Rightarrow>
                    st\<lparr>documents :=
                          updateDoc (docId active)
                            (\<lambda>doc. doc\<lparr>arrayBuffer := newBuffer,
                                  pages := withThumbnails thumbnails (pages doc)\<rparr>)
                            (documents st),
                        cropBoxState := None\<rparr>))
      | _ \<Rightarrow> st)"

definition saveAnnotations :: "(real \<Rightarrow> pdfPage \<Rightarrow> string) \<Rightarrow> App \<Rightarrow> App" where
  "saveAnnotations rz st =
     (case (activeDoc st, activePageIndex st) of
        (Some active, Some pageIx) \<Rightarrow>
          if currentAnnotations st = [] then st
          else
            (case addTextToPage (arrayBuffer active) (Num (int pageIx))
                    (currentAnnotations st) of
               Inl e \<Rightarrow> st
             | Inr newBuffer \<Rightarrow>
                 (case generateThumbnails rz newBuffer 0.3 of
                    Inl e \<Rightarrow> st
                  | Inr thumbnails \<Rightarrow>
                      st\<lparr>documents :=
                            updateDoc (docId active)
                              (\<lambda>doc. doc\<lparr>arrayBuffer := newBuffer,
                                    pages :=
                                      map (\<lambda>(i, page).
                                             page\<lparr>thumbnail := elemAt thumbnails i,
                                                  textAnnotations :=
                                                    (if i = pageIx then []
                                                     else textAnnotations page)\<rparr>)
                                        (enumerate 0 (pages doc))\<rparr>)
                              (documents st),
                          currentAnnotations := []\<rparr>))
      | _ \<Rightarrow> st)"

text \<open>
  The handlers that change the selection or remove a document.
\<close>

definition selectAllPages :: "App \<Rightarrow> App" where
  "selectAllPages st =
     (case activeDoc st of
        None \<Rightarrow> st
      | Some active \<Rightarrow>
          st\<lparr>selectedPages :=
               map (\<lambda>i. selectionKey (docId active) i) [0..<length (pages active)]\<rparr>)"

definition clearSelection :: "App \<Rightarrow> App" where
  "clearSelection st = st\<lparr>selectedPages := []\<rparr>"

definition deleteDocument :: "App \<Rightarrow> string \<Rightarrow> App" where
  "deleteDocument st d =
     st\<lparr>documents := filter (\<lambda>doc. docId doc \<noteq> d) (documents st),
        activeDocId :=
          (if activeDocId st = Some d
           then (case find (\<lambda>doc. docId doc \<noteq> d) (documents st) of
                   None \<Rightarrow> None
                 | Some doc \<Rightarrow> if docId doc = [] then None else Some (docId doc))
           else activeDocId st),
        selectedPages := filter (\<lambda>key. \<not> prefix d key) (selectedPages st)\<rparr>"

section \<open>Runs of the editor\<close>

text \<open>
  What the user can do, one event per handler. \<open>Ui\<close> stands for the handlers that are
  not modelled one by one (choosing the active document, opening and closing the page
  editor, drawing a crop box, placing and editing annotations): they change any part of
  the state but the documents. A run starts from the state of the mounted component; an
  upload is admitted when the identifiers drawn for its files are fresh, which is what
  \<open>crypto.randomUUID()\<close> provides.
\<close>

datatype event =
    FileUpload "uploadedFile list"
  | TogglePage string nat
  | SelectAll
  | ClearSelection
  | Rotate int
  | DeletePages
  | MovePage int int
  | ApplyCrop
  | SaveAnnotations
  | DeleteDocument string
  | Ui "App \<Rightarrow> App"

fun step :: "(real \<Rightarrow> pdfPage \<Rightarrow> string) \<Rightarrow> App \<Rightarrow> event \<Rightarrow> App" where
  "step rz st (FileUpload files) = handleFileUpload rz st files"
| "step rz st (TogglePage d i) = togglePageSelection st d i"
| "step rz st SelectAll = selectAllPages st"
| "step rz st ClearSelection = clearSelection st"
| "step rz st (Rotate degrees) = handleRotate rz st degrees"
| "step rz st DeletePages = handleDeletePages rz st"
| "step rz st (MovePage fromIndex toIndex) = handleMovePage rz st fromIndex toIndex"
| "step rz st ApplyCrop = applyCrop rz st"
| "step rz st SaveAnnotations = saveAnnotations rz st"
| "step rz st (DeleteDocument d) = deleteDocument st d"
| "step rz st (Ui f) = (f st)\<lparr>documents := documents st\<rparr>"

fun admitted :: "App \<Rightarrow> event \<Rightarrow> bool" where
  "admitted st (FileUpload files) =
     (distinct (map uuid files) \<and> (\<forall>f \<in> set files. uuid f \<notin> set (map docId (documents st))))"
| "admitted st ev = True"

fun run :: "(real \<Rightarrow> pdfPage \<Rightarrow> string) \<Rightarrow> App \<Rightarrow> event list \<Rightarrow> App option" where
  "run rz st [] = Some st"
| "run rz st (ev # evs) = (if admitted st ev then run rz (step rz st ev) evs else None)"

text \<open>
  The invariant of the data model, in the words of the specification: the page array has
  \<open>pageCount\<close> entries, and it belongs to the byte buffer of the document: the buffer
  loads, has \<open>pageCount\<close> pages, and the thumbnails of the page array are the images of
  the pages of this buffer at the scale of the thumbnails.
\<close>

definition inSync :: "(real \<Rightarrow> pdfPage \<Rightarrow> string) \<Rightarrow> PDFDocument \<Rightarrow> bool" where
  "inSync rz d \<longleftrightarrow>
     length (pages d) = pageCount d \<and>
     (case arrayBuffer d of
        NotPdf \<Rightarrow> False
      | Pdf ps \<Rightarrow>
          length ps = pageCount d \<and>
          map thumbnail (pages d) = map (\<lambda>p. Some (rz 0.3 p)) ps)"

definition wellFormed :: "(real \<Rightarrow> pdfPage \<Rightarrow> string) \<Rightarrow> App \<Rightarrow> bool" where
  "wellFormed rz st \<longleftrightarrow>
     distinct (map docId (documents st)) \<and> (\<forall>d \<in> set (documents st). inSync rz d)"

section \<open>Sample documents\<close>

text \<open>Concrete pages and documents on which the theorems below are instantiated.\<close>

definition samplePage :: "nat \<Rightarrow> pdfPage" where
  "samplePage n =
     \<lparr>body = n, getSize = (DFin False 600, DFin False 800), angle = 0, cropRect = None,
      drawn = []\<rparr>"

definition sampleBuffer :: "nat \<Rightarrow> arrayBuffer" where
  "sampleBuffer n = Pdf (map samplePage [0..<n])"

text \<open>
  An identifier in the format of \<open>crypto.randomUUID()\<close>, a file of \<open>n\<close> pages that
  carries an identifier \<open>d\<close>, a rasterizer, and the editor after the upload of this file
  and the selection of its pages 2 and 4 (zero-based) by two clicks.
\<close>

definition sampleUuid :: string where
  "sampleUuid = ''123e4567-e89b-12d3-a456-426614174000''"

definition sampleFile :: "string \<Rightarrow> nat \<Rightarrow> uploadedFile" where
  "sampleFile d n =
     \<lparr>ftype = ''application/pdf'', fname = ''report.pdf'', contents = sampleBuffer n,
      uuid = d\<rparr>"

definition sampleRz :: "real \<Rightarrow> pdfPage \<Rightarrow> string" where
  "sampleRz scale p = ''jpeg'' @ showNat (body p) @ ''r'' @ showNat (nat (angle p))"

definition uploaded :: "string \<Rightarrow> nat \<Rightarrow> App" where
  "uploaded d n = handleFileUpload sampleRz initialApp [sampleFile d n]"

definition selected24 :: "string \<Rightarrow> nat \<Rightarrow> App" where
  "selected24 d n = togglePageSelection (togglePageSelection (uploaded d n) d 2) d 4"

text \<open>
  The merge rules of the specification's round trip of \<open>split\<close> and \<open>merge\<close>: the page
  indices of the rules, listed rule by rule.
\<close>

definition ruleIndices :: "MergeRule list \<Rightarrow> int list" where
  "ruleIndices rules = concat (map (\<lambda>r. [start r..end' r]) rules)"

section \<open>Properties of the range parser\<close>

lemmas parser_defs = parseMergeRules_def parts_def trim_def isWhiteSpace_def partRules_def
  rangeRule_def pageRule_def parseInt_def isRadixDigit_def digitVal_def digitsValue_def

lemma foldl_push: "foldl (\<lambda>rules part. rules @ f part) acc ps = acc @ concat (map f ps)"
  by (induction ps arbitrary: acc) simp_all

lemma parseMergeRules_concat:
  "parseMergeRules input maxPage = concat (map (partRules maxPage) (parts input))"
  by (simp add: parseMergeRules_def foldl_push)

lemma partRules_bounds:
  "r \<in> set (partRules maxPage part) \<Longrightarrow> 0 \<le> start r \<and> start r \<le> end' r \<and> end' r < maxPage"
  by (auto simp: partRules_def rangeRule_def pageRule_def Let_def split: if_splits number.splits)

lemma partRules_unusable: "unusable maxPage part \<Longrightarrow> partRules maxPage part = []"
  by (cases "parseInt part 10"; cases "parseIntU (elemAt (map trim (split (CHR ''-'') part)) 0) 10";
      cases "parseIntU (elemAt (map trim (split (CHR ''-'') part)) (Suc 0)) 10")
     (auto simp: unusable_def partRules_def rangeRule_def pageRule_def Let_def split: if_splits)

lemma partRules_usable: "\<not> unusable maxPage part \<Longrightarrow> length (partRules maxPage part) = 1"
  by (cases "parseInt part 10"; cases "parseIntU (elemAt (map trim (split (CHR ''-'') part)) 0) 10";
      cases "parseIntU (elemAt (map trim (split (CHR ''-'') part)) (Suc 0)) 10")
     (auto simp: unusable_def partRules_def rangeRule_def pageRule_def Let_def split: if_splits)

lemma partRules_length:
  "length (partRules maxPage part) = (if unusable maxPage part then 0 else 1)"
  by (simp add: partRules_unusable partRules_usable)

lemma partRules_member:
  assumes "r \<in> set (partRules maxPage part)"
  shows "\<not> unusable maxPage part \<and> partRules maxPage part = [r]"
proof -
  from assms have u: "\<not> unusable maxPage part"
    using partRules_unusable by fastforce
  then have "length (partRules maxPage part) = 1" by (rule partRules_usable)
  then obtain q where "partRules maxPage part = [q]"
    by (cases "partRules maxPage part") auto
  with assms u show ?thesis by simp
qed

lemma length_concat_filter:
  "length (concat (map (partRules maxPage) ps)) = length (filter (\<lambda>p. \<not> unusable maxPage p) ps)"
  by (induction ps) (simp_all add: partRules_length)

text \<open>
  C3. Every rule that \<open>parseMergeRules\<close> returns satisfies \<open>0 \<le> start \<le> end < maxPage\<close> and
  is the rule of a token that is neither malformed nor out of bounds; a token that is
  malformed or out of bounds (a side does not parse as an integer, \<open>start < 0\<close>,
  \<open>end \<ge> maxPage\<close> or \<open>start > end\<close>) contributes no rule; and
  \<open>parseMergeRules("1-2,3,4-9,10", 10)\<close> is \<open>[(0,1),(2,2),(3,8),(9,9)]\<close>.
\<close>

theorem parseMergeRules_in_range:
  "(\<forall>r \<in> set (parseMergeRules input maxPage).
      0 \<le> start r \<and> start r \<le> end' r \<and> end' r < maxPage \<and>
      (\<exists>part \<in> set (parts input). \<not> unusable maxPage part \<and> partRules maxPage part = [r]))
   \<and> (\<forall>part \<in> set (parts input). unusable maxPage part \<longrightarrow> partRules maxPage part = [])
   \<and> parseMergeRules ''1-2,3,4-9,10'' 10 =
       [\<lparr>start = 0, end' = 1\<rparr>, \<lparr>start = 2, end' = 2\<rparr>, \<lparr>start = 3, end' = 8\<rparr>,
        \<lparr>start = 9, end' = 9\<rparr>]"
proof (intro conjI ballI impI)
  fix r assume "r \<in> set (parseMergeRules input maxPage)"
  then obtain part where p: "part \<in> set (parts input)" and r: "r \<in> set (partRules maxPage part)"
    by (auto simp: parseMergeRules_concat)
  from r show "0 \<le> start r" "start r \<le> end' r" "end' r < maxPage"
    using partRules_bounds by blast+
  from p r show "\<exists>part \<in> set (parts input). \<not> unusable maxPage part \<and> partRules maxPage part = [r]"
    using partRules_member by blast
next
  fix part assume "unusable maxPage part"
  then show "partRules maxPage part = []" by (rule partRules_unusable)
next
  show "parseMergeRules ''1-2,3,4-9,10'' 10 =
       [\<lparr>start = 0, end' = 1\<rparr>, \<lparr>start = 2, end' = 2\<rparr>, \<lparr>start = 3, end' = 8\<rparr>,
        \<lparr>start = 9, end' = 9\<rparr>]"
    by (simp add: parser_defs)
qed

theorem parseMergeRules_in_range_witness:
  "\<lparr>start = 0, end' = 1\<rparr> \<in> set (parseMergeRules ''1-2,x,30'' 10)
   \<and> 0 \<le> start \<lparr>start = 0, end' = 1\<rparr>
   \<and> start \<lparr>start = 0, end' = 1\<rparr> \<le> end' \<lparr>start = 0, end' = 1\<rparr>
   \<and> end' \<lparr>start = 0, end' = 1\<rparr> < 10
   \<and> ''30'' \<in> set (parts ''1-2,x,30'') \<and> unusable 10 ''30'' \<and> partRules 10 ''30'' = []"
proof -
  have m: "\<lparr>start = 0, end' = 1\<rparr> \<in> set (parseMergeRules ''1-2,x,30'' 10)"
    by (simp add: parser_defs)
  have p: "''30'' \<in> set (parts ''1-2,x,30'')"
    by (simp add: parts_def trim_def isWhiteSpace_def)
  have u: "unusable 10 ''30''"
    by (simp add: unusable_def parser_defs)
  from parseMergeRules_in_range [of "''1-2,x,30''" 10] m p u show ?thesis
    by blast
qed

lemma split_no_sep: "c \<notin> set s \<Longrightarrow> split c s = [s]"
  by (induction s) auto

lemma split_first: "c \<notin> set a \<Longrightarrow> split c (a @ c # rest) = a # split c rest"
  by (induction a) auto

lemma rangeRule_first_two:
  assumes "CHR ''-'' \<notin> set a" "CHR ''-'' \<notin> set b"
  shows "rangeRule maxPage (a @ ''-'' @ b @ ''-'' @ c) = rangeRule maxPage (a @ ''-'' @ b)"
  using assms by (simp add: rangeRule_def split_first split_no_sep split: number.splits)

lemma digit_not_space_or_sign:
  "isRadixDigit 10 c \<Longrightarrow> \<not> isWhiteSpace c \<and> c \<noteq> CHR ''-'' \<and> c \<noteq> CHR ''+''"
  by (auto simp: isRadixDigit_def digitVal_def isWhiteSpace_def)

lemma takeWhile_digits:
  assumes "\<forall>c \<in> set ds. P c" "rest = [] \<or> \<not> P (hd rest)"
  shows "takeWhile P (ds @ rest) = ds"
proof -
  have "takeWhile P rest = []"
    using assms(2) by (cases rest) auto
  with assms(1) show ?thesis by (simp add: takeWhile_append2)
qed

lemma parseInt_digits_append:
  assumes "ds \<noteq> []" "\<forall>c \<in> set ds. isRadixDigit 10 c"
    and "rest = [] \<or> \<not> isRadixDigit 10 (hd rest)"
  shows "parseInt (ds @ rest) 10 = Num (int (digitsValue 10 ds))"
proof -
  from assms(1) obtain d ds' where ds: "ds = d # ds'" by (cases ds) auto
  with assms(2) have d: "\<not> isWhiteSpace d" "d \<noteq> CHR ''-''" "d \<noteq> CHR ''+''"
    using digit_not_space_or_sign by auto
  have tw: "takeWhile (isRadixDigit 10) (ds @ rest) = ds"
    using assms(2,3) by (rule takeWhile_digits)
  have "dropWhile isWhiteSpace (ds @ rest) = ds @ rest"
    using d ds by simp
  then show ?thesis
    using d tw assms(1) by (simp add: parseInt_def Let_def ds)
qed

lemma split_not_Nil: "split c s \<noteq> []"
  by (induction s) (auto split: list.splits)

lemma split_append: "split c (a @ c # b) = split c a @ split c b"
proof (induction a)
  case Nil
  then show ?case by simp
next
  case (Cons x a)
  then show ?case
    using split_not_Nil [of c a] by (cases "split c a") auto
qed

lemma parts_append: "parts (a @ '','' @ b) = parts a @ parts b"
  by (simp add: parts_def split_append)

lemma parseMergeRules_append:
  "parseMergeRules (a @ '','' @ b) maxPage = parseMergeRules a maxPage @ parseMergeRules b maxPage"
  by (simp only: parseMergeRules_concat parts_append map_append concat_append)

lemma parts_token:
  "CHR '','' \<notin> set t \<Longrightarrow> parts t = (if trim t = [] then [] else [trim t])"
  by (simp add: parts_def split_no_sep)

lemma parseMergeRules_token:
  "CHR '','' \<notin> set t \<Longrightarrow>
   parseMergeRules t maxPage = (if trim t = [] then [] else partRules maxPage (trim t))"
  by (simp add: parseMergeRules_concat parts_token)

lemma set_trim: "set (trim s) \<subseteq> set s"
proof -
  have "set (trim s) = set (dropWhile isWhiteSpace (rev (dropWhile isWhiteSpace s)))"
    by (simp add: trim_def)
  also have "\<dots> \<subseteq> set (rev (dropWhile isWhiteSpace s))"
    by (meson set_dropWhileD subsetI)
  also have "\<dots> \<subseteq> set s"
    by (auto dest: set_dropWhileD)
  finally show ?thesis .
qed

lemma set_split: "x \<in> set (split c s) \<Longrightarrow> set x \<subseteq> set s"
proof (induction s arbitrary: x)
  case Nil
  then show ?case by simp
next
  case (Cons y s)
  show ?case
  proof (cases "y = c")
    case True
    with Cons show ?thesis by auto
  next
    case False
    obtain z zs where z: "split c s = z # zs"
      using split_not_Nil [of c s] by (cases "split c s") auto
    with False Cons.prems have "x = y # z \<or> x \<in> set zs" by simp
    then show ?thesis
    proof
      assume "x = y # z"
      moreover have "set z \<subseteq> set s" using Cons.IH [of z] z by simp
      ultimately show ?thesis by auto
    next
      assume "x \<in> set zs"
      then have "set x \<subseteq> set s" using Cons.IH [of x] z by simp
      then show ?thesis by auto
    qed
  qed
qed

lemma set_parts: "part \<in> set (parts input) \<Longrightarrow> set part \<subseteq> set input"
  using set_trim set_split by (fastforce simp: parts_def)

lemma parseInt_no_digit:
  assumes "\<forall>c \<in> set s. \<not> isRadixDigit 10 c"
  shows "parseInt s 10 = NaN"
proof -
  have tw: "takeWhile (isRadixDigit 10) x = []" if "set x \<subseteq> set s" for x
    using that assms by (cases x) auto
  have a: "set (dropWhile isWhiteSpace s) \<subseteq> set s"
    by (auto dest: set_dropWhileD)
  have b: "set (drop (Suc 0) (dropWhile isWhiteSpace s)) \<subseteq> set s"
    by (auto dest: in_set_dropD set_dropWhileD)
  show ?thesis
    by (simp add: parseInt_def Let_def tw [OF a] tw [OF b])
qed

lemma elemAt_member: "elemAt xs i = Some x \<Longrightarrow> x \<in> set xs"
proof (induction xs arbitrary: i)
  case Nil
  then show ?case by simp
next
  case (Cons y xs)
  then show ?case by (cases i) auto
qed

lemma parseIntU_segment_no_digit:
  assumes "\<forall>c \<in> set part. \<not> isRadixDigit 10 c"
  shows "parseIntU (elemAt (map trim (split (CHR ''-'') part)) i) 10 = NaN"
proof (cases "elemAt (map trim (split (CHR ''-'') part)) i")
  case None
  then show ?thesis by (simp add: parseInt_def isRadixDigit_def digitVal_def isWhiteSpace_def)
next
  case (Some seg)
  then have "seg \<in> set (map trim (split (CHR ''-'') part))" by (rule elemAt_member)
  then have "set seg \<subseteq> set part"
    using set_trim set_split by fastforce
  with assms have "\<forall>c \<in> set seg. \<not> isRadixDigit 10 c" by blast
  then show ?thesis using Some by (simp add: parseInt_no_digit)
qed

lemma partRules_no_digit:
  assumes "\<forall>c \<in> set part. \<not> isRadixDigit 10 c"
  shows "partRules maxPage part = []"
  using assms
  by (simp add: partRules_def rangeRule_def pageRule_def parseInt_no_digit
      parseIntU_segment_no_digit)

lemma parseMergeRules_no_digit:
  assumes "\<forall>c \<in> set input. \<not> isRadixDigit 10 c"
  shows "parseMergeRules input maxPage = []"
proof -
  have "partRules maxPage part = []" if "part \<in> set (parts input)" for part
    using that assms set_parts by (intro partRules_no_digit) blast
  then show ?thesis by (simp add: parseMergeRules_concat)
qed

lemma invoke_Some: "invoke (Some r) m = Inr (m r)"
  by (simp add: invoke_def)

lemma mapE_Inr: "mapE (\<lambda>s. Inr (f s)) xs = Inr (map f xs)"
  by (induction xs) simp_all

lemma partRulesE_returns: "partRulesE maxPage part = Inr (partRules maxPage part)"
  by (simp add: partRulesE_def partRules_def rangeRule_def invoke_Some mapE_Inr Let_def)

lemma loopE_returns:
  "loopE maxPage rules ps = Inr (foldl (\<lambda>rules part. rules @ partRules maxPage part) rules ps)"
  by (induction ps arbitrary: rules) (simp_all add: partRulesE_returns)

lemma parseMergeRulesE_returns:
  "parseMergeRulesE input maxPage = Inr (parseMergeRules input maxPage)"
  by (simp add: parseMergeRulesE_def invoke_Some mapE_Inr loopE_returns parseMergeRules_def
      parts_def)

lemma length_parts_le: "length (parts input) \<le> length (split (CHR '','') input)"
proof -
  have "length (parts input) \<le> length (map trim (split (CHR '','') input))"
    unfolding parts_def by (rule length_filter_le)
  then show ?thesis by simp
qed

text \<open>
  C8. \<open>parseMergeRules\<close> returns for every input and never raises: with every place
  where JavaScript can raise written out, the function returns the rules of the model.
  Malformed tokens are dropped: an input without any digit gives the empty list. The
  rules follow the order of the input: the rules of the text before a comma come before
  the rules of the text after it, and a piece without a comma gives the rules of its
  trimmed token, one rule when the token is valid and none otherwise. So the result
  has as many rules as there are valid tokens and never more rules than pieces between
  commas. Overlapping and repeated ranges are kept as they are.
\<close>

theorem parseMergeRules_order:
  "parseMergeRulesE input maxPage = Inr (parseMergeRules input maxPage)
   \<and> parseMergeRules (a @ '','' @ b) maxPage =
       parseMergeRules a maxPage @ parseMergeRules b maxPage
   \<and> (CHR '','' \<notin> set t \<longrightarrow>
        parseMergeRules t maxPage = (if trim t = [] then [] else partRules maxPage (trim t)))
   \<and> length (partRules maxPage part) = (if unusable maxPage part then 0 else 1)
   \<and> parseMergeRules input maxPage = concat (map (partRules maxPage) (parts input))
   \<and> length (parseMergeRules input maxPage) =
       length (filter (\<lambda>p. \<not> unusable maxPage p) (parts input))
   \<and> length (parseMergeRules input maxPage) \<le> length (split (CHR '','') input)
   \<and> ((\<forall>c \<in> set input. \<not> isRadixDigit 10 c) \<longrightarrow> parseMergeRules input maxPage = [])
   \<and> parseMergeRules ''3,1,2'' 10 =
       [\<lparr>start = 2, end' = 2\<rparr>, \<lparr>start = 0, end' = 0\<rparr>, \<lparr>start = 1, end' = 1\<rparr>]
   \<and> parseMergeRules ''4-9,x,1-2,4-9, 5 ,1-30'' 10 =
       [\<lparr>start = 3, end' = 8\<rparr>, \<lparr>start = 0, end' = 1\<rparr>, \<lparr>start = 3, end' = 8\<rparr>,
        \<lparr>start = 4, end' = 4\<rparr>]
   \<and> parseMergeRules ''abc,3-,0,11,5-4,x-2,,-'' 10 = []"
proof (intro conjI impI)
  show "parseMergeRulesE input maxPage = Inr (parseMergeRules input maxPage)"
    by (rule parseMergeRulesE_returns)
  show "parseMergeRules (a @ '','' @ b) maxPage =
       parseMergeRules a maxPage @ parseMergeRules b maxPage"
    by (rule parseMergeRules_append)
  show "parseMergeRules t maxPage = (if trim t = [] then [] else partRules maxPage (trim t))"
    if "CHR '','' \<notin> set t"
    using that by (rule parseMergeRules_token)
  show "length (partRules maxPage part) = (if unusable maxPage part then 0 else 1)"
    by (rule partRules_length)
  show "parseMergeRules input maxPage = concat (map (partRules maxPage) (parts input))"
    by (rule parseMergeRules_concat)
  show n: "length (parseMergeRules input maxPage) =
       length (filter (\<lambda>p. \<not> unusable maxPage p) (parts input))"
    by (simp only: parseMergeRules_concat length_concat_filter)
  have "length (parseMergeRules input maxPage) \<le> length (parts input)"
    by (simp only: n length_filter_le)
  then show "length (parseMergeRules input maxPage) \<le> length (split (CHR '','') input)"
    using length_parts_le [of input] by simp
  show "parseMergeRules input maxPage = []" if "\<forall>c \<in> set input. \<not> isRadixDigit 10 c"
    using that by (rule parseMergeRules_no_digit)
  show "parseMergeRules ''3,1,2'' 10 =
       [\<lparr>start = 2, end' = 2\<rparr>, \<lparr>start = 0, end' = 0\<rparr>, \<lparr>start = 1, end' = 1\<rparr>]"
    by (simp add: parser_defs)
  show "parseMergeRules ''4-9,x,1-2,4-9, 5 ,1-30'' 10 =
       [\<lparr>start = 3, end' = 8\<rparr>, \<lparr>start = 0, end' = 1\<rparr>, \<lparr>start = 3, end' = 8\<rparr>,
        \<lparr>start = 4, end' = 4\<rparr>]"
    by (simp add: parser_defs)
  show "parseMergeRules ''abc,3-,0,11,5-4,x-2,,-'' 10 = []"
    by (simp add: parser_defs)
qed

theorem parseMergeRules_order_witness:
  "parseMergeRules (''7, 2-3'' @ '','' @ ''1'') 10 =
     parseMergeRules ''7, 2-3'' 10 @ parseMergeRules ''1'' 10
   \<and> parseMergeRules ''7, 2-3'' 10 = [\<lparr>start = 6, end' = 6\<rparr>, \<lparr>start = 1, end' = 2\<rparr>]
   \<and> CHR '','' \<notin> set '' 2-3 ''
   \<and> parseMergeRules '' 2-3 '' 10 = partRules 10 ''2-3''
   \<and> partRules 10 ''2-3'' = [\<lparr>start = 1, end' = 2\<rparr>]
   \<and> parseMergeRules ''a-b, ?? ,-'' 10 = []
   \<and> parseMergeRulesE ''a-b, ?? ,-'' 10 = Inr []"
proof -
  have h1: "CHR '','' \<notin> set '' 2-3 ''" by simp
  have t: "trim '' 2-3 '' = ''2-3''" by (simp add: trim_def isWhiteSpace_def)
  have h2: "\<forall>c \<in> set ''a-b, ?? ,-''. \<not> isRadixDigit 10 c"
    by (simp add: isRadixDigit_def digitVal_def)
  have v1: "parseMergeRules ''7, 2-3'' 10 = [\<lparr>start = 6, end' = 6\<rparr>, \<lparr>start = 1, end' = 2\<rparr>]"
    by (simp add: parser_defs)
  have v2: "partRules 10 ''2-3'' = [\<lparr>start = 1, end' = 2\<rparr>]"
    by (simp add: parser_defs)
  note th = parseMergeRules_order [where maxPage = 10 and a = "''7, 2-3''" and b = "''1''"
      and t = "'' 2-3 ''" and input = "''a-b, ?? ,-''"]
  from th have c1: "parseMergeRules (''7, 2-3'' @ '','' @ ''1'') 10 =
     parseMergeRules ''7, 2-3'' 10 @ parseMergeRules ''1'' 10"
    by blast
  from th h1 have "parseMergeRules '' 2-3 '' 10 =
      (if trim '' 2-3 '' = [] then [] else partRules 10 (trim '' 2-3 ''))"
    by blast
  then have c2: "parseMergeRules '' 2-3 '' 10 = partRules 10 ''2-3''"
    by (simp only: t) simp
  from th h2 have c3: "parseMergeRules ''a-b, ?? ,-'' 10 = []"
    by blast
  from th have "parseMergeRulesE ''a-b, ?? ,-'' 10 = Inr (parseMergeRules ''a-b, ?? ,-'' 10)"
    by blast
  then have c4: "parseMergeRulesE ''a-b, ?? ,-'' 10 = Inr []"
    by (simp only: c3)
  from c1 v1 h1 c2 v2 c3 c4 show ?thesis by blast
qed

text \<open>
  C10. A token that starts with decimal digits and goes on with something that is not a
  digit is read as the number of its digits: \<open>3abc\<close> gives the rule \<open>(2,2)\<close> for every
  \<open>maxPage\<close> of at least 3, and in general such a token gives the rules of its digits
  alone. Of a token with more than one hyphen only the first two segments are read: what
  follows the second hyphen does not change the rules of the token.
\<close>

theorem parseMergeRules_lenient:
  "(3 \<le> maxPage \<longrightarrow> parseMergeRules ''3abc'' maxPage = [\<lparr>start = 2, end' = 2\<rparr>])
   \<and> (ds \<noteq> [] \<and> (\<forall>c \<in> set ds. isRadixDigit 10 c) \<and> (rest = [] \<or> \<not> isRadixDigit 10 (hd rest))
        \<and> CHR ''-'' \<notin> set rest \<longrightarrow>
      parseInt (ds @ rest) 10 = Num (int (digitsValue 10 ds))
      \<and> partRules maxPage (ds @ rest) = partRules maxPage ds)
   \<and> (CHR ''-'' \<notin> set a \<and> CHR ''-'' \<notin> set b \<longrightarrow>
      partRules maxPage (a @ ''-'' @ b @ ''-'' @ c) = partRules maxPage (a @ ''-'' @ b))
   \<and> parseMergeRules ''1-2-300'' 10 = [\<lparr>start = 0, end' = 1\<rparr>]"
proof (intro conjI impI)
  assume "3 \<le> maxPage"
  then show "parseMergeRules ''3abc'' maxPage = [\<lparr>start = 2, end' = 2\<rparr>]"
    by (simp add: parser_defs)
next
  assume h: "ds \<noteq> [] \<and> (\<forall>c \<in> set ds. isRadixDigit 10 c)
      \<and> (rest = [] \<or> \<not> isRadixDigit 10 (hd rest)) \<and> CHR ''-'' \<notin> set rest"
  then show p: "parseInt (ds @ rest) 10 = Num (int (digitsValue 10 ds))"
    by (simp add: parseInt_digits_append)
  from h have "parseInt (ds @ []) 10 = Num (int (digitsValue 10 ds))"
    by (intro parseInt_digits_append) simp_all
  moreover from h have "CHR ''-'' \<notin> set ds"
    using digit_not_space_or_sign by blast
  ultimately show "partRules maxPage (ds @ rest) = partRules maxPage ds"
    using h p by (simp add: partRules_def pageRule_def)
next
  assume "CHR ''-'' \<notin> set a \<and> CHR ''-'' \<notin> set b"
  then show "partRules maxPage (a @ ''-'' @ b @ ''-'' @ c) = partRules maxPage (a @ ''-'' @ b)"
    using rangeRule_first_two [of a b maxPage c] by (simp add: partRules_def)
next
  show "parseMergeRules ''1-2-300'' 10 = [\<lparr>start = 0, end' = 1\<rparr>]"
    by (simp add: parser_defs)
qed

theorem parseMergeRules_lenient_witness:
  "(3::int) \<le> 5 \<and> parseMergeRules ''3abc'' 5 = [\<lparr>start = 2, end' = 2\<rparr>]
   \<and> parseInt (''12'' @ ''th'') 10 = Num (int (digitsValue 10 ''12''))
   \<and> partRules 20 (''12'' @ ''th'') = partRules 20 ''12''
   \<and> partRules 20 ''12'' = [\<lparr>start = 11, end' = 11\<rparr>]
   \<and> partRules 20 (''2'' @ ''-'' @ ''5'' @ ''-'' @ ''900'') = partRules 20 (''2'' @ ''-'' @ ''5'')
   \<and> partRules 20 (''2'' @ ''-'' @ ''5'') = [\<lparr>start = 1, end' = 4\<rparr>]"
proof -
  have h1: "(3::int) \<le> 5" by simp
  have h2: "''12'' \<noteq> [] \<and> (\<forall>c \<in> set ''12''. isRadixDigit 10 c)
      \<and> (''th'' = [] \<or> \<not> isRadixDigit 10 (hd ''th'')) \<and> CHR ''-'' \<notin> set ''th''"
    by (simp add: isRadixDigit_def digitVal_def)
  have h3: "CHR ''-'' \<notin> set ''2'' \<and> CHR ''-'' \<notin> set ''5''" by simp
  have v1: "partRules 20 ''12'' = [\<lparr>start = 11, end' = 11\<rparr>]"
    by (simp add: parser_defs)
  have v2: "partRules 20 (''2'' @ ''-'' @ ''5'') = [\<lparr>start = 1, end' = 4\<rparr>]"
    by (simp add: parser_defs)
  from parseMergeRules_lenient [where maxPage = 5]
  have "parseMergeRules ''3abc'' 5 = [\<lparr>start = 2, end' = 2\<rparr>]" using h1 by blast
  moreover
  from parseMergeRules_lenient [where maxPage = 20 and ds = "''12''" and rest = "''th''"
      and a = "''2''" and b = "''5''" and c = "''900''"] h2 h3
  have "parseInt (''12'' @ ''th'') 10 = Num (int (digitsValue 10 ''12''))
     \<and> partRules 20 (''12'' @ ''th'') = partRules 20 ''12''
     \<and> partRules 20 (''2'' @ ''-'' @ ''5'' @ ''-'' @ ''900'') = partRules 20 (''2'' @ ''-'' @ ''5'')"
    by blast
  ultimately show ?thesis using h1 v1 v2 by blast
qed

section \<open>Properties of the document operations\<close>

lemma rotateOne_skip: "arrayIndex (length ps) i = None \<Longrightarrow> rotateOne d ps i = Inr ps"
  by (cases i) (auto split: if_splits)

lemma rotateOne_at:
  assumes "arrayIndex (length ps) i = Some k"
  shows "rotateOne d ps i =
     (if 90 dvd angle (ps ! k) + d then Inr (ps[k := (ps ! k)\<lparr>angle := angle (ps ! k) + d\<rparr>])
      else Inl AssertError)"
  using assms by (cases i) (auto simp: setRotation_def mod_eq_0_iff_dvd split: if_splits)

lemma length_rotateOne: "rotateOne d ps i = Inr ps' \<Longrightarrow> length ps' = length ps"
  by (cases "arrayIndex (length ps) i")
     (auto simp: rotateOne_skip rotateOne_at split: if_splits)

lemma length_rotateEach: "rotateEach d ps idxs = Inr ps' \<Longrightarrow> length ps' = length ps"
proof (induction idxs arbitrary: ps)
  case Nil
  then show ?case by simp
next
  case (Cons i idxs)
  then obtain ps1 where o: "rotateOne d ps i = Inr ps1" and e: "rotateEach d ps1 idxs = Inr ps'"
    by (auto split: sum.splits)
  from e have "length ps' = length ps1" by (rule Cons.IH)
  with o show ?case by (simp add: length_rotateOne)
qed

lemma arrayIndex_Some: "arrayIndex n i = Some k \<longleftrightarrow> i = Num (int k) \<and> k < n"
  by (cases i) auto

lemma rotateEach_eq:
  assumes "90 dvd d"
    and "\<forall>k < length ps. Num (int k) \<in> set idxs \<longrightarrow> 90 dvd angle (ps ! k)"
  shows "rotateEach d ps idxs =
     Inr (map (\<lambda>(k, p). p\<lparr>angle := angle p + int (count_list idxs (Num (int k))) * d\<rparr>)
           (enumerate 0 ps))"
  using assms(2)
proof (induction idxs arbitrary: ps)
  case Nil
  have "map (\<lambda>(k, p). p\<lparr>angle := angle p + int (count_list [] (Num (int k))) * d\<rparr>)
      (enumerate 0 ps) = ps"
    by (intro nth_equalityI) (simp_all add: nth_enumerate_eq)
  then show ?case by simp
next
  case (Cons i idxs)
  show ?case
  proof (cases "arrayIndex (length ps) i")
    case None
    then have ne: "i \<noteq> Num (int k)" if "k < length ps" for k
      using that by (cases i) auto
    have "rotateEach d ps idxs =
        Inr (map (\<lambda>(k, p). p\<lparr>angle := angle p + int (count_list idxs (Num (int k))) * d\<rparr>)
              (enumerate 0 ps))"
      using Cons.prems by (intro Cons.IH) simp
    moreover have "map (\<lambda>(k, p). p\<lparr>angle := angle p + int (count_list idxs (Num (int k))) * d\<rparr>)
          (enumerate 0 ps) =
        map (\<lambda>(k, p). p\<lparr>angle := angle p + int (count_list (i # idxs) (Num (int k))) * d\<rparr>)
          (enumerate 0 ps)"
      using ne by (intro nth_equalityI) (simp_all add: nth_enumerate_eq)
    ultimately show ?thesis using None by (simp add: rotateOne_skip)
  next
    case (Some k0)
    then have i: "i = Num (int k0)" and k0: "k0 < length ps"
      by (simp_all add: arrayIndex_Some)
    define ps1 where "ps1 = ps[k0 := (ps ! k0)\<lparr>angle := angle (ps ! k0) + d\<rparr>]"
    from Cons.prems i k0 have "90 dvd angle (ps ! k0)" by simp
    with assms(1) have one: "rotateOne d ps i = Inr ps1"
      using Some by (simp add: rotateOne_at ps1_def)
    have "\<forall>k < length ps1. Num (int k) \<in> set idxs \<longrightarrow> 90 dvd angle (ps1 ! k)"
    proof (intro allI impI)
      fix k assume k: "k < length ps1" and m: "Num (int k) \<in> set idxs"
      from k m Cons.prems have a: "90 dvd angle (ps ! k)" by (simp add: ps1_def)
      show "90 dvd angle (ps1 ! k)"
      proof (cases "k = k0")
        case True
        with a assms(1) k0 show ?thesis by (simp add: ps1_def)
      next
        case False
        with a show ?thesis by (simp add: ps1_def)
      qed
    qed
    then have "rotateEach d ps1 idxs =
        Inr (map (\<lambda>(k, p). p\<lparr>angle := angle p + int (count_list idxs (Num (int k))) * d\<rparr>)
              (enumerate 0 ps1))"
      by (rule Cons.IH)
    moreover have "map (\<lambda>(k, p). p\<lparr>angle := angle p + int (count_list idxs (Num (int k))) * d\<rparr>)
          (enumerate 0 ps1) =
        map (\<lambda>(k, p). p\<lparr>angle := angle p + int (count_list (i # idxs) (Num (int k))) * d\<rparr>)
          (enumerate 0 ps)"
      by (intro nth_equalityI)
         (auto simp: ps1_def nth_enumerate_eq nth_list_update i algebra_simps)
    ultimately show ?thesis using one by simp
  qed
qed

lemma rotateEach_filter:
  "rotateEach d ps (filter (\<lambda>i. arrayIndex (length ps) i \<noteq> None) idxs) = rotateEach d ps idxs"
proof (induction idxs arbitrary: ps)
  case Nil
  then show ?case by simp
next
  case (Cons i idxs)
  show ?case
  proof (cases "arrayIndex (length ps) i")
    case None
    then show ?thesis using Cons.IH [of ps] by (simp add: rotateOne_skip)
  next
    case (Some k)
    show ?thesis
    proof (cases "rotateOne d ps i")
      case (Inl e)
      then show ?thesis using Some by simp
    next
      case (Inr ps1)
      then have "length ps1 = length ps" by (rule length_rotateOne)
      then show ?thesis using Some Inr Cons.IH [of ps1] by simp
    qed
  qed
qed

lemma rotateEach_fails:
  assumes "\<not> 90 dvd d" "\<forall>p \<in> set ps. 90 dvd angle p"
    and "\<exists>i \<in> set idxs. arrayIndex (length ps) i \<noteq> None"
  shows "rotateEach d ps idxs = Inl AssertError"
  using assms(3)
proof (induction idxs)
  case Nil
  then show ?case by simp
next
  case (Cons i idxs)
  show ?case
  proof (cases "arrayIndex (length ps) i")
    case None
    with Cons show ?thesis by (simp add: rotateOne_skip)
  next
    case (Some k)
    then have "k < length ps" by (simp add: arrayIndex_Some)
    with assms(2) have "90 dvd angle (ps ! k)" by simp
    with assms(1) have "\<not> 90 dvd angle (ps ! k) + d"
      by (simp add: dvd_add_right_iff)
    then show ?thesis using Some by (simp add: rotateOne_at)
  qed
qed

lemma rotatePages_Pdf:
  "(\<exists>e. rotatePages (Pdf ps) idxs d = Inl e) \<or>
   (\<exists>ps'. rotatePages (Pdf ps) idxs d = Inr (Pdf ps') \<and> rotateEach d ps idxs = Inr ps'
      \<and> length ps' = length ps)"
  by (cases "rotateEach d ps idxs") (simp_all add: rotatePages_def save_def length_rotateEach)

text \<open>
  C9, the claim as stated, fails: for \<open>degrees = 45\<close> and a page at angle 0 the codec's
  \<open>setRotation\<close> raises, and \<open>rotatePages\<close> returns no buffer.
\<close>

theorem rotatePages_counterexample:
  "rotatePages (sampleBuffer 1) [Num 0] 45 = Inl AssertError"
  by (simp add: rotatePages_def sampleBuffer_def samplePage_def setRotation_def)

text \<open>
  C9, amended. When \<open>degrees\<close> is a multiple of 90 and the pages that the list selects
  have angles that are multiples of 90, \<open>rotatePages\<close> on a buffer that loads adds
  \<open>degrees\<close> to the angle of a page once for every occurrence of its index in the list:
  the page at position \<open>k\<close> ends with its angle plus the number of occurrences of \<open>k\<close>
  times \<open>degrees\<close>, and is otherwise unchanged. When \<open>degrees\<close> is not a multiple of 90,
  the angles of the pages are, and the list selects a page, the call raises. For every
  \<open>degrees\<close>, entries that select no page (\<open>NaN\<close>, negative, or not below the page count)
  contribute nothing: removing them from the list gives the same result. A buffer that
  does not load gives the load error.
\<close>

theorem rotatePages_per_occurrence:
  "(90 dvd degrees
      \<and> (\<forall>k < length ps. Num (int k) \<in> set pageIndices \<longrightarrow> 90 dvd angle (ps ! k)) \<longrightarrow>
    rotatePages (Pdf ps) pageIndices degrees =
      Inr (Pdf (map (\<lambda>(k, p). p\<lparr>angle := angle p
                     + int (count_list pageIndices (Num (int k))) * degrees\<rparr>)
                 (enumerate 0 ps))))
   \<and> (\<not> 90 dvd degrees \<and> (\<forall>p \<in> set ps. 90 dvd angle p)
        \<and> (\<exists>i \<in> set pageIndices. arrayIndex (length ps) i \<noteq> None) \<longrightarrow>
      rotatePages (Pdf ps) pageIndices degrees = Inl AssertError)
   \<and> rotatePages (Pdf ps) (filter (\<lambda>i. arrayIndex (length ps) i \<noteq> None) pageIndices) degrees =
       rotatePages (Pdf ps) pageIndices degrees
   \<and> rotatePages NotPdf pageIndices degrees = Inl LoadError"
proof (intro conjI impI)
  assume "90 dvd degrees
      \<and> (\<forall>k < length ps. Num (int k) \<in> set pageIndices \<longrightarrow> 90 dvd angle (ps ! k))"
  then have "rotateEach degrees ps pageIndices =
      Inr (map (\<lambda>(k, p). p\<lparr>angle := angle p
                     + int (count_list pageIndices (Num (int k))) * degrees\<rparr>)
                 (enumerate 0 ps))"
    by (intro rotateEach_eq) simp_all
  then show "rotatePages (Pdf ps) pageIndices degrees =
      Inr (Pdf (map (\<lambda>(k, p). p\<lparr>angle := angle p
                     + int (count_list pageIndices (Num (int k))) * degrees\<rparr>)
                 (enumerate 0 ps)))"
    by (simp add: rotatePages_def save_def)
next
  assume "\<not> 90 dvd degrees \<and> (\<forall>p \<in> set ps. 90 dvd angle p)
        \<and> (\<exists>i \<in> set pageIndices. arrayIndex (length ps) i \<noteq> None)"
  then have "rotateEach degrees ps pageIndices = Inl AssertError"
    by (intro rotateEach_fails) simp_all
  then show "rotatePages (Pdf ps) pageIndices degrees = Inl AssertError"
    by (simp add: rotatePages_def)
next
  show "rotatePages (Pdf ps) (filter (\<lambda>i. arrayIndex (length ps) i \<noteq> None) pageIndices) degrees =
       rotatePages (Pdf ps) pageIndices degrees"
    unfolding rotatePages_def load.simps sum.case rotateEach_filter ..
  show "rotatePages NotPdf pageIndices degrees = Inl LoadError"
    by (simp add: rotatePages_def)
qed

theorem rotatePages_per_occurrence_witness:
  "rotatePages (Pdf [samplePage 0, samplePage 1, samplePage 2]) [Num 2, NaN, Num 0, Num 2, Num 7]
     (- 90) =
     Inr (Pdf [(samplePage 0)\<lparr>angle := - 90\<rparr>, samplePage 1, (samplePage 2)\<lparr>angle := - 180\<rparr>])
   \<and> rotatePages (Pdf [samplePage 0, samplePage 1, samplePage 2]) [Num 7, Num 1] 30 =
       Inl AssertError"
proof -
  let ?ps = "[samplePage 0, samplePage 1, samplePage 2]"
  let ?idxs = "[Num 2, NaN, Num 0, Num 2, Num 7]"
  have h1: "90 dvd (- 90 :: int)
      \<and> (\<forall>k < length ?ps. Num (int k) \<in> set ?idxs \<longrightarrow> 90 dvd angle (?ps ! k))"
    by (auto simp: samplePage_def nth_Cons split: nat.splits)
  have h2: "\<not> 90 dvd (30 :: int) \<and> (\<forall>p \<in> set ?ps. 90 dvd angle p)
      \<and> (\<exists>i \<in> set [Num 7, Num 1]. arrayIndex (length ?ps) i \<noteq> None)"
    by (simp add: samplePage_def)
  have e: "map (\<lambda>(k, p). p\<lparr>angle := angle p + int (count_list ?idxs (Num (int k))) * (- 90)\<rparr>)
      (enumerate 0 ?ps) =
      [(samplePage 0)\<lparr>angle := - 90\<rparr>, samplePage 1, (samplePage 2)\<lparr>angle := - 180\<rparr>]"
    by (simp add: enumerate_eq_zip upt_conv_Cons samplePage_def)
  from rotatePages_per_occurrence [where ps = ?ps and pageIndices = ?idxs and degrees = "- 90"] h1
  have "rotatePages (Pdf ?ps) ?idxs (- 90) =
      Inr (Pdf (map (\<lambda>(k, p). p\<lparr>angle := angle p + int (count_list ?idxs (Num (int k))) * (- 90)\<rparr>)
        (enumerate 0 ?ps)))"
    by blast
  moreover
  from rotatePages_per_occurrence [where ps = ?ps and pageIndices = "[Num 7, Num 1]"
      and degrees = 30] h2
  have "rotatePages (Pdf ?ps) [Num 7, Num 1] 30 = Inl AssertError"
    by blast
  ultimately show ?thesis by (simp only: e) 
qed

lemma foldl_addPage: "foldl addPage acc ps = acc @ ps"
  by (induction ps arbitrary: acc) (simp_all add: addPage_def)

lemma copyPages_eq:
  "copyPages src idxs =
     (if \<forall>i \<in> set idxs. arrayIndex (length src) i \<noteq> None
      then Inr (map (\<lambda>i. src ! the (arrayIndex (length src) i)) idxs)
      else Inl TypeError)"
  by (induction idxs) (auto simp: pageAt_def split: option.splits sum.splits)

lemma copyPages_positions:
  "\<forall>k \<in> set ks. k < length src \<Longrightarrow>
   copyPages src (map (\<lambda>k. Num (int k)) ks) = Inr (map (\<lambda>k. src ! k) ks)"
  by (simp add: copyPages_eq)

lemma extractPages_eq:
  "extractPages (Pdf ps) idxs =
     (if \<forall>i \<in> set idxs. arrayIndex (length ps) i \<noteq> None
      then Inr (Pdf (map (\<lambda>i. ps ! the (arrayIndex (length ps) i)) idxs))
      else Inl TypeError)"
  by (simp add: extractPages_def copyPages_eq save_def foldl_addPage)

lemma extractPages_positions:
  "\<forall>k \<in> set ks. k < length ps \<Longrightarrow>
   extractPages (Pdf ps) (map (\<lambda>k. Num (int k)) ks) = Inr (Pdf (map (\<lambda>k. ps ! k) ks))"
  by (simp add: extractPages_eq)

lemma reorderPages_extractPages: "reorderPages buf newOrder = extractPages buf newOrder"
  by (simp add: reorderPages_def extractPages_def)

text \<open>
  C6. \<open>reorderPages\<close> and \<open>extractPages\<close> give the same result on every buffer and every
  index list. On a buffer that loads and a list of positions of its pages the result is
  the document of the pages at these positions, in the order of the list; an entry that
  selects no page makes both fail, as does a buffer that does not load. With the identity
  permutation the result has the pages of the source in their order, hence the same page
  count.
\<close>

theorem reorderPages_is_extractPages:
  "reorderPages buf newOrder = extractPages buf newOrder
   \<and> ((\<forall>k \<in> set ks. k < length ps) \<longrightarrow>
        reorderPages (Pdf ps) (map (\<lambda>k. Num (int k)) ks) = Inr (Pdf (map (\<lambda>k. ps ! k) ks)))
   \<and> ((\<exists>i \<in> set newOrder. arrayIndex (length ps) i = None) \<longrightarrow>
        reorderPages (Pdf ps) newOrder = Inl TypeError)
   \<and> reorderPages NotPdf newOrder = Inl LoadError
   \<and> reorderPages (Pdf ps) (map (\<lambda>k. Num (int k)) [0..<length ps]) = Inr (Pdf ps)
   \<and> getPageCount (Pdf ps) = Inr (length ps)"
proof (intro conjI impI)
  show "reorderPages buf newOrder = extractPages buf newOrder"
    by (rule reorderPages_extractPages)
  show "reorderPages (Pdf ps) (map (\<lambda>k. Num (int k)) ks) = Inr (Pdf (map (\<lambda>k. ps ! k) ks))"
    if "\<forall>k \<in> set ks. k < length ps"
    using that by (simp add: reorderPages_extractPages extractPages_positions)
  show "reorderPages (Pdf ps) newOrder = Inl TypeError"
    if "\<exists>i \<in> set newOrder. arrayIndex (length ps) i = None"
    using that by (auto simp: reorderPages_extractPages extractPages_eq)
  show "reorderPages NotPdf newOrder = Inl LoadError"
    by (simp add: reorderPages_def)
  have "reorderPages (Pdf ps) (map (\<lambda>k. Num (int k)) [0..<length ps]) =
      Inr (Pdf (map (\<lambda>k. ps ! k) [0..<length ps]))"
    by (simp add: reorderPages_extractPages extractPages_positions)
  then show "reorderPages (Pdf ps) (map (\<lambda>k. Num (int k)) [0..<length ps]) = Inr (Pdf ps)"
    by (simp add: map_nth)
  show "getPageCount (Pdf ps) = Inr (length ps)" by simp
qed

theorem reorderPages_is_extractPages_witness:
  "reorderPages (Pdf [samplePage 0, samplePage 1, samplePage 2]) [Num 2, Num 0] =
     Inr (Pdf [samplePage 2, samplePage 0])
   \<and> reorderPages (Pdf [samplePage 0]) [Num 3] = Inl TypeError"
proof -
  have h1: "\<forall>k \<in> set [2, 0::nat]. k < length [samplePage 0, samplePage 1, samplePage 2]"
    by simp
  have h2: "\<exists>i \<in> set [Num 3]. arrayIndex (length [samplePage 0]) i = None"
    by simp
  from reorderPages_is_extractPages
    [where ps = "[samplePage 0, samplePage 1, samplePage 2]" and ks = "[2, 0]"] h1
  have "reorderPages (Pdf [samplePage 0, samplePage 1, samplePage 2])
      (map (\<lambda>k. Num (int k)) [2, 0]) =
      Inr (Pdf (map (\<lambda>k. [samplePage 0, samplePage 1, samplePage 2] ! k) [2, 0]))"
    by blast
  moreover
  from reorderPages_is_extractPages [where ps = "[samplePage 0]" and newOrder = "[Num 3]"] h2
  have "reorderPages (Pdf [samplePage 0]) [Num 3] = Inl TypeError"
    by blast
  ultimately show ?thesis by simp
qed

lemma map_Num_in_range:
  "0 \<le> s \<Longrightarrow> e < int (length ps) \<Longrightarrow> \<forall>i \<in> set (map Num [s..e]). arrayIndex (length ps) i \<noteq> None"
  by auto

lemma copyPages_range:
  assumes "0 \<le> s" "e < int (length ps)"
  shows "copyPages ps (map Num [s..e]) = Inr (map (\<lambda>i. ps ! nat i) [s..e])"
  using assms by (simp add: copyPages_eq)

lemma splitRanges_valid:
  "\<forall>r \<in> set rules. 0 \<le> start r \<and> end' r < int (length ps) \<Longrightarrow>
   splitRanges ps rules =
     Inr (map (\<lambda>r. Pdf (map (\<lambda>i. ps ! nat i) [start r..end' r])) rules)"
  by (induction rules) (simp_all add: copyPages_range save_def foldl_addPage)

lemma mergeInto_pdfs:
  "mergeInto acc (map Pdf docs) = Inr (acc @ concat docs)"
proof (induction docs arbitrary: acc)
  case Nil
  then show ?case by simp
next
  case (Cons d docs)
  have "copyPages d (map (\<lambda>i. Num (int i)) [0..<length d]) = Inr (map (\<lambda>k. d ! k) [0..<length d])"
    by (rule copyPages_positions) simp
  then show ?case
    by (simp add: Cons.IH foldl_addPage map_nth)
qed

lemma split_then_merge:
  assumes "\<forall>r \<in> set rules. 0 \<le> start r \<and> end' r < int (length ps)"
  shows "splitPDF (Pdf ps) rules =
           Inr (map (\<lambda>r. Pdf (map (\<lambda>i. ps ! nat i) [start r..end' r])) rules)"
    and "mergePDFs (map (\<lambda>r. Pdf (map (\<lambda>i. ps ! nat i) [start r..end' r])) rules) =
           Inr (Pdf (map (\<lambda>i. ps ! nat i) (ruleIndices rules)))"
proof -
  show "splitPDF (Pdf ps) rules =
           Inr (map (\<lambda>r. Pdf (map (\<lambda>i. ps ! nat i) [start r..end' r])) rules)"
    using assms by (simp add: splitPDF_def splitRanges_valid)
  have "map (\<lambda>r. Pdf (map (\<lambda>i. ps ! nat i) [start r..end' r])) rules =
        map Pdf (map (\<lambda>r. map (\<lambda>i. ps ! nat i) [start r..end' r]) rules)"
    by simp
  then show "mergePDFs (map (\<lambda>r. Pdf (map (\<lambda>i. ps ! nat i) [start r..end' r])) rules) =
           Inr (Pdf (map (\<lambda>i. ps ! nat i) (ruleIndices rules)))"
    by (simp only: mergePDFs_def mergeInto_pdfs)
       (simp add: save_def ruleIndices_def map_concat comp_def)
qed

lemma length_ruleIndices:
  "\<forall>r \<in> set rules. start r \<le> end' r \<Longrightarrow>
   int (length (ruleIndices rules)) = (\<Sum>r\<leftarrow>rules. end' r - start r + 1)"
  by (induction rules) (simp_all add: ruleIndices_def)

lemma length_exact_cover:
  assumes "distinct xs" "set xs = {0..<int n}"
  shows "length xs = n"
proof -
  have "length xs = card (set xs)" using assms(1) by (simp add: distinct_card)
  then show ?thesis using assms(2) by simp
qed

text \<open>
  C4, the claim as stated, fails: splitting a document of two pages with the single rule
  \<open>(0,0)\<close> gives one buffer of one page, and merging it gives a document of one page, not
  two.
\<close>

theorem split_merge_counterexample:
  "splitPDF (Pdf [samplePage 0, samplePage 1]) [\<lparr>start = 0, end' = 0\<rparr>] = Inr [Pdf [samplePage 0]]
   \<and> mergePDFs [Pdf [samplePage 0]] = Inr (Pdf [samplePage 0])
   \<and> getPageCount (Pdf [samplePage 0]) = Inr 1
   \<and> getPageCount (Pdf [samplePage 0, samplePage 1]) = Inr 2"
  by (simp add: splitPDF_def mergePDFs_def save_def addPage_def pageAt_def)

text \<open>
  C4, amended. For a list of at least one rule, each within the pages of the source
  (\<open>0 \<le> start \<le> end < pageCount\<close>), \<open>splitPDF\<close> gives one buffer per rule and \<open>mergePDFs\<close>
  of these buffers, in their order, gives the document of the pages of the rules, rule by
  rule; its page count is the sum of \<open>end - start + 1\<close> over the rules and is at least 1.
  It is the page count of the source when the rules contain every page index of the
  source exactly once. (The empty rule list gives no buffer, and merging no buffer is
  outside the contract of \<open>merge\<close>.)
\<close>

theorem split_merge_page_count:
  assumes "rules \<noteq> []"
    and "\<forall>r \<in> set rules. 0 \<le> start r \<and> start r \<le> end' r \<and> end' r < int (length ps)"
  shows "\<exists>buffers merged.
           splitPDF (Pdf ps) rules = Inr buffers \<and> length buffers = length rules
         \<and> buffers \<noteq> []
         \<and> mergePDFs buffers = Inr merged
         \<and> merged = Pdf (map (\<lambda>i. ps ! nat i) (ruleIndices rules))
         \<and> (\<exists>n. getPageCount merged = Inr n \<and> 1 \<le> n
                \<and> int n = (\<Sum>r\<leftarrow>rules. end' r - start r + 1))
         \<and> (distinct (ruleIndices rules) \<and> set (ruleIndices rules) = {0..<int (length ps)}
              \<longrightarrow> getPageCount merged = getPageCount (Pdf ps))"
proof -
  let ?buffers = "map (\<lambda>r. Pdf (map (\<lambda>i. ps ! nat i) [start r..end' r])) rules"
  let ?merged = "Pdf (map (\<lambda>i. ps ! nat i) (ruleIndices rules))"
  from assms(2) have r: "\<forall>r \<in> set rules. 0 \<le> start r \<and> end' r < int (length ps)" by blast
  have s: "splitPDF (Pdf ps) rules = Inr ?buffers"
    using r by (rule split_then_merge(1))
  have m: "mergePDFs ?buffers = Inr ?merged"
    using r by (rule split_then_merge(2))
  have n: "int (length (ruleIndices rules)) = (\<Sum>r\<leftarrow>rules. end' r - start r + 1)"
    using assms(2) by (intro length_ruleIndices) blast
  have pos: "1 \<le> length (ruleIndices rules)"
  proof -
    from assms(1) obtain r rs where rs: "rules = r # rs" by (cases rules) auto
    with assms(2) have "start r \<le> end' r" by simp
    then have "[start r..end' r] \<noteq> []" by (simp add: upto.simps)
    then show ?thesis by (cases "[start r..end' r]") (simp_all add: ruleIndices_def rs)
  qed
  have c: "getPageCount ?merged = getPageCount (Pdf ps)"
    if "distinct (ruleIndices rules) \<and> set (ruleIndices rules) = {0..<int (length ps)}"
    using that by (simp add: length_exact_cover)
  show ?thesis
    using s m n c pos assms(1) by (intro exI [of _ ?buffers] exI [of _ ?merged]) simp
qed

theorem split_merge_page_count_witness:
  "\<exists>buffers merged.
     splitPDF (sampleBuffer 4) [\<lparr>start = 2, end' = 3\<rparr>, \<lparr>start = 0, end' = 1\<rparr>] = Inr buffers
   \<and> length buffers = 2 \<and> buffers \<noteq> []
   \<and> mergePDFs buffers = Inr merged
   \<and> merged = Pdf [samplePage 2, samplePage 3, samplePage 0, samplePage 1]
   \<and> getPageCount merged = Inr 4"
proof -
  let ?rules = "[\<lparr>start = 2, end' = 3\<rparr>, \<lparr>start = 0, end' = 1\<rparr>]"
  let ?ps = "map samplePage [0..<4]"
  have idx: "ruleIndices ?rules = [2, 3, 0, 1]"
    by (simp add: ruleIndices_def upto.simps)
  have h: "\<forall>r \<in> set ?rules. 0 \<le> start r \<and> start r \<le> end' r \<and> end' r < int (length ?ps)"
    by simp
  have d: "distinct (ruleIndices ?rules) \<and> set (ruleIndices ?rules) = {0..<int (length ?ps)}"
    unfolding idx by auto
  have e: "map (\<lambda>i. ?ps ! nat i) (ruleIndices ?rules) =
      [samplePage 2, samplePage 3, samplePage 0, samplePage 1]"
    unfolding idx by (simp add: upt_conv_Cons samplePage_def)
  have ne: "?rules \<noteq> []" by simp
  from split_merge_page_count [OF ne h] d e show ?thesis
    by (auto simp: sampleBuffer_def)
qed

section \<open>Properties of the arithmetic of doubles\<close>

lemma bitLength_bounds:
  "0 < n \<Longrightarrow> 2 ^ (bitLength n - 1) \<le> n \<and> n < 2 ^ bitLength n"
proof (induction n rule: bitLength.induct)
  case (1 n)
  show ?case
  proof (cases "n div 2 = 0")
    case True
    with "1.prems" have "n = 1" by (simp add: div_eq_0_iff) 
    then show ?thesis by (simp add: bitLength.simps)
  next
    case False
    then have ih: "2 ^ (bitLength (n div 2) - 1) \<le> n div 2 \<and> n div 2 < 2 ^ bitLength (n div 2)"
      using "1.IH" "1.prems" by simp
    from False have pos: "0 < bitLength (n div 2)"
      by (subst bitLength.simps) simp
    have b: "bitLength n = Suc (bitLength (n div 2))"
      using "1.prems" by (subst bitLength.simps) simp
    from ih pos have "2 ^ bitLength (n div 2) \<le> 2 * (n div 2)"
      by (cases "bitLength (n div 2)") simp_all
    then have lo: "2 ^ (bitLength n - 1) \<le> n" unfolding b by simp
    from ih have "n div 2 + 1 \<le> 2 ^ bitLength (n div 2)" by simp
    then have "2 * (n div 2) + 2 \<le> 2 * 2 ^ bitLength (n div 2)" by simp
    then have hi: "n < 2 ^ bitLength n" unfolding b by simp
    from lo hi show ?thesis ..
  qed
qed

lemma power_int_2_pos: "0 < power_int (2::rat) e"
  by simp

lemma power_int_2_Suc: "power_int (2::rat) (e + 1) = 2 * power_int 2 e"
  by (simp add: power_int_add)

lemma power_int_2_less: "e < e' \<Longrightarrow> power_int (2::rat) e < power_int 2 e'"
  by (rule power_int_strict_increasing) simp_all

lemma power_int_2_le: "e \<le> e' \<Longrightarrow> power_int (2::rat) e \<le> power_int 2 e'"
  by (rule power_int_increasing) simp_all

lemma exponent_unique:
  assumes "power_int 2 e \<le> (m::rat)" "m < power_int 2 (e + 1)"
    and "power_int 2 e' \<le> m" "m < power_int 2 (e' + 1)"
  shows "e = e'"
proof (rule ccontr)
  assume "e \<noteq> e'"
  then consider "e + 1 \<le> e'" | "e' + 1 \<le> e" by linarith
  then show False
  proof cases
    case 1
    then have "power_int (2::rat) (e + 1) \<le> power_int 2 e'" by (rule power_int_2_le)
    with assms show False by linarith
  next
    case 2
    then have "power_int (2::rat) (e' + 1) \<le> power_int 2 e" by (rule power_int_2_le)
    with assms show False by linarith
  qed
qed

lemma exponent_bounds:
  assumes "0 < m"
  shows "power_int 2 (exponent m) \<le> m \<and> m < power_int 2 (exponent m + 1)"
proof -
  define a where "a = fst (quotient_of m)"
  define b where "b = snd (quotient_of m)"
  define la where "la = bitLength (nat a)"
  define lb where "lb = bitLength (nat b)"
  define k where "k = int la - int lb"
  have q: "quotient_of m = (a, b)" by (simp add: a_def b_def)
  then have m: "m = of_int a / of_int b" and b: "0 < b"
    by (rule quotient_of_div, rule quotient_of_denom_pos)
  with assms have a: "0 < a" by (simp add: zero_less_divide_iff)
  from a have na: "2 ^ (la - 1) \<le> nat a \<and> nat a < 2 ^ la"
    unfolding la_def by (intro bitLength_bounds) simp
  then have ab: "(2::rat) ^ (la - 1) \<le> of_int a" "of_int a < (2::rat) ^ la"
    using a
    by (metis nat_0_le of_int_of_nat_eq of_nat_le_iff of_nat_numeral of_nat_power order_less_imp_le,
        metis nat_0_le of_int_of_nat_eq of_nat_less_iff of_nat_numeral of_nat_power order_less_imp_le)
  from b have nb: "2 ^ (lb - 1) \<le> nat b \<and> nat b < 2 ^ lb"
    unfolding lb_def by (intro bitLength_bounds) simp
  then have bb: "(2::rat) ^ (lb - 1) \<le> of_int b" "of_int b < (2::rat) ^ lb"
    using b
    by (metis nat_0_le of_int_of_nat_eq of_nat_le_iff of_nat_numeral of_nat_power order_less_imp_le,
        metis nat_0_le of_int_of_nat_eq of_nat_less_iff of_nat_numeral of_nat_power order_less_imp_le)
  have la: "0 < la" using na a by (cases la) simp_all
  have lb: "0 < lb" using nb b by (cases lb) simp_all
  have bpos: "(0::rat) < of_int b" using b by simp
  have hi: "m < power_int 2 (k + 1)"
  proof -
    have "of_int a * (2::rat) ^ (lb - 1) < 2 ^ la * of_int b"
      using ab(2) bb(1) a b
      by (intro mult_less_le_imp_less) simp_all
    then have "m * 2 ^ (lb - 1) < (2::rat) ^ la"
      unfolding m using bpos by (simp add: field_simps)
    moreover have "power_int (2::rat) (k + 1) * 2 ^ (lb - 1) = 2 ^ la"
    proof -
      have "k + 1 + int (lb - 1) = int la" using lb by (simp add: k_def)
      then have "power_int (2::rat) (k + 1) * power_int 2 (int (lb - 1)) = power_int 2 (int la)"
        by (metis power_int_add zero_neq_numeral)
      then show ?thesis by simp
    qed
    ultimately have "m * 2 ^ (lb - 1) < power_int (2::rat) (k + 1) * 2 ^ (lb - 1)" by simp
    then show ?thesis by simp
  qed
  have lo: "power_int 2 (k - 1) \<le> m"
  proof -
    have "(2::rat) ^ (la - 1) * of_int b \<le> of_int a * 2 ^ lb"
      using ab(1) bb(2) a b
      by (intro mult_mono) simp_all
    then have "(2::rat) ^ (la - 1) \<le> m * 2 ^ lb"
      unfolding m using bpos by (simp add: field_simps)
    moreover have "power_int (2::rat) (k - 1) * 2 ^ lb = 2 ^ (la - 1)"
    proof -
      have "k - 1 + int lb = int (la - 1)" using la by (simp add: k_def)
      then have "power_int (2::rat) (k - 1) * power_int 2 (int lb) = power_int 2 (int (la - 1))"
        by (metis power_int_add zero_neq_numeral)
      then show ?thesis by simp
    qed
    ultimately have "power_int (2::rat) (k - 1) * 2 ^ lb \<le> m * 2 ^ lb" by simp
    then show ?thesis by simp
  qed
  have e: "exponent m = (if power_int 2 k \<le> m then k else k - 1)"
    by (simp add: exponent_def Let_def k_def la_def lb_def a_def b_def)
  show ?thesis
  proof (cases "power_int 2 k \<le> m")
    case True
    with e hi show ?thesis by simp
  next
    case False
    with e lo show ?thesis by simp
  qed
qed

lemma exponent_eq:
  assumes "power_int 2 e \<le> m" "m < power_int 2 (e + 1)"
  shows "exponent m = e"
proof -
  have "0 < m" using assms(1) power_int_2_pos [of e] by linarith
  then have "power_int 2 (exponent m) \<le> m \<and> m < power_int 2 (exponent m + 1)"
    by (rule exponent_bounds)
  with assms show ?thesis using exponent_unique by blast
qed

lemma roundEven_near:
  assumes "\<bar>n - of_int r\<bar> < 1 / 2"
  shows "roundEven n = r"
proof (cases "of_int r \<le> n")
  case True
  with assms have "\<lfloor>n\<rfloor> = r" by (intro floor_unique) (simp_all add: abs_less_iff)
  with assms True show ?thesis by (simp add: roundEven_def Let_def abs_less_iff)
next
  case False
  with assms have f: "\<lfloor>n\<rfloor> = r - 1" by (intro floor_unique) (simp_all add: abs_less_iff)
  from assms False have "\<not> n - of_int (r - 1) < 1 / 2" "n - of_int (r - 1) > 1 / 2"
    by (simp_all add: abs_less_iff)
  with f show ?thesis by (simp add: roundEven_def Let_def)
qed

lemma roundEven_of_int: "roundEven (of_int k) = k"
  by (rule roundEven_near) simp

lemma roundEven_error: "\<bar>of_int (roundEven n) - n\<bar> \<le> 1 / 2"
proof -
  have "of_int \<lfloor>n\<rfloor> \<le> n" "n < of_int \<lfloor>n\<rfloor> + 1" by linarith+
  then show ?thesis by (auto simp: roundEven_def Let_def abs_le_iff)
qed

lemma roundEven_mono_bound:
  assumes "n \<le> of_int k"
  shows "roundEven n \<le> k"
proof -
  have "of_int (roundEven n) \<le> n + 1 / 2"
    using roundEven_error [of n] by linarith
  with assms have "(of_int (roundEven n) :: rat) < of_int k + 1" by linarith
  then have "(of_int (roundEven n) :: rat) < of_int (k + 1)" by simp
  then have "roundEven n < k + 1" by (simp only: of_int_less_iff)
  then show ?thesis by simp
qed

lemma power_int_2_split: "power_int (2::rat) (e + 1) = power_int 2 (e - 52) * 2 ^ 53"
proof -
  have "e + 1 = (e - 52) + 53" by simp
  then have "power_int (2::rat) (e + 1) = power_int 2 (e - 52) * power_int 2 53"
    by (metis power_int_add zero_neq_numeral)
  then show ?thesis by simp
qed

lemma power_int_2_split0: "power_int (2::rat) e = power_int 2 (e - 52) * 2 ^ 52"
proof -
  have "e = (e - 52) + 52" by simp
  then have "power_int (2::rat) e = power_int 2 (e - 52) * power_int 2 52"
    by (metis power_int_add zero_neq_numeral)
  then show ?thesis by simp
qed

lemma rnd_normal:
  assumes "power_int 2 e \<le> m" "m < power_int 2 (e + 1)" "- 1022 \<le> e" "e \<le> 1022"
  shows "rnd s m = DFin s (of_int (roundEven (m / power_int 2 (e - 52))) * power_int 2 (e - 52))"
proof -
  define q :: rat where "q = power_int 2 (e - 52)"
  have q: "0 < q" by (simp add: q_def)
  have m: "0 < m" using assms(1) power_int_2_pos [of e] by linarith
  have ex: "exponent m = e" using assms(1,2) by (rule exponent_eq)
  have "m < q * 2 ^ 53" using assms(2) by (simp add: power_int_2_split q_def)
  then have "m / q \<le> of_int (2 ^ 53)" using q by (simp add: field_simps)
  then have "roundEven (m / q) \<le> 2 ^ 53" by (rule roundEven_mono_bound)
  then have "(of_int (roundEven (m / q)) :: rat) \<le> 2 ^ 53"
    by (metis of_int_le_iff of_int_numeral of_int_power)
  then have "of_int (roundEven (m / q)) * q \<le> 2 ^ 53 * q"
    using q by (intro mult_right_mono) simp_all
  also have "\<dots> = power_int 2 (e + 1)" by (simp add: power_int_2_split q_def)
  also have "\<dots> < power_int 2 1024"
    using assms(4) by (intro power_int_2_less) simp
  finally have "\<not> power_int 2 1024 \<le> of_int (roundEven (m / q)) * q" by simp
  then show ?thesis
    using m ex assms(3) by (simp add: rnd_def Let_def q_def max_def)
qed

lemma rnd_grid:
  assumes "2 ^ 52 \<le> k" "k < 2 ^ 53" "- 1022 \<le> e" "e \<le> 1022"
  shows "rnd s (of_int k * power_int 2 (e - 52)) = DFin s (of_int k * power_int 2 (e - 52))"
proof -
  define q :: rat where "q = power_int 2 (e - 52)"
  have q: "0 < q" by (simp add: q_def)
  from assms(1) have "(2::rat) ^ 52 \<le> of_int k"
    by (metis of_int_le_iff of_int_numeral of_int_power)
  then have lo: "power_int 2 e \<le> of_int k * q"
    using q by (simp add: power_int_2_split0 [of e] q_def mult.commute)
  from assms(2) have "of_int k < (2::rat) ^ 53"
    by (metis of_int_less_iff of_int_numeral of_int_power)
  then have hi: "of_int k * q < power_int 2 (e + 1)"
    using q by (simp add: power_int_2_split [of e] q_def mult.commute)
  have "rnd s (of_int k * q) = DFin s (of_int (roundEven (of_int k * q / q)) * q)"
    unfolding q_def using lo hi assms(3,4) unfolding q_def by (rule rnd_normal)
  then show ?thesis using q by (simp add: roundEven_of_int q_def)
qed

lemma rnd_eval:
  assumes "power_int 2 e \<le> m" "m < power_int 2 (e + 1)" "- 1022 \<le> e" "e \<le> 1022"
    and "\<bar>m / power_int 2 (e - 52) - of_int r\<bar> < 1 / 2"
  shows "rnd s m = DFin s (of_int r * power_int 2 (e - 52))"
  using rnd_normal [OF assms(1-4)] roundEven_near [OF assms(5)] by simp

lemma rnd_error:
  assumes "power_int 2 e \<le> m" "m < power_int 2 (e + 1)" "- 1022 \<le> e" "e \<le> 1022"
  shows "\<exists>m'. rnd s m = DFin s m' \<and> \<bar>m' - m\<bar> \<le> m / 2 ^ 53"
proof -
  define q :: rat where "q = power_int 2 (e - 52)"
  define m' where "m' = of_int (roundEven (m / q)) * q"
  have q: "0 < q" by (simp add: q_def)
  have r: "rnd s m = DFin s m'"
    unfolding m'_def q_def using assms by (rule rnd_normal)
  have "m' - m = (of_int (roundEven (m / q)) - m / q) * q"
    using q by (simp add: m'_def left_diff_distrib)
  then have "\<bar>m' - m\<bar> = \<bar>of_int (roundEven (m / q)) - m / q\<bar> * q"
    using q by (simp add: abs_mult)
  also have "\<dots> \<le> 1 / 2 * q"
    using q roundEven_error [of "m / q"] by (intro mult_right_mono) simp_all
  also have "\<dots> \<le> m / 2 ^ 53"
    using assms(1) by (simp add: power_int_2_split0 [of e] q_def)
  finally show ?thesis using r by blast
qed

lemma rnd_zero: "rnd s 0 = DFin s 0"
  by (simp add: rnd_def)

lemma rnd_one: "rnd s 1 = DFin s 1"
  using rnd_grid [of "2 ^ 52" 0 s] by simp

lemma rnd_49: "rnd s 49 = DFin s 49"
  using rnd_grid [of "49 * 2 ^ 47" 5 s] by simp

lemma rnd_1_49: "rnd s (1 / 49) = DFin s (5882252574524729 / 2 ^ 58)"
  using rnd_eval [of "- 6" "1 / 49" 5882252574524729 s] by simp

lemma rnd_49_times: "rnd s (49 * (5882252574524729 / 2 ^ 58)) = DFin s (9007199254740991 / 2 ^ 53)"
  using rnd_eval [of "- 1" "49 * (5882252574524729 / 2 ^ 58)" 9007199254740991 s] by simp

lemma rnd_ulp: "rnd s (1 / 2 ^ 53) = DFin s (1 / 2 ^ 53)"
  using rnd_grid [of "2 ^ 52" "- 53" s] by simp

lemma representable_values: "representable 0" "representable 1" "representable 49"
  by (simp_all add: representable_def rnd_zero rnd_one rnd_49)

lemma exponent_at_most:
  assumes "0 < m" "m < power_int 2 (hi + 1)"
  shows "exponent m \<le> hi"
proof (rule ccontr)
  assume "\<not> exponent m \<le> hi"
  then have "hi + 1 \<le> exponent m" by simp
  then have "power_int (2::rat) (hi + 1) \<le> power_int 2 (exponent m)" by (rule power_int_2_le)
  moreover have "power_int 2 (exponent m) \<le> m" using exponent_bounds [OF assms(1)] ..
  ultimately show False using assms(2) by linarith
qed

lemma exponent_at_least:
  assumes "power_int 2 lo \<le> m"
  shows "lo \<le> exponent m"
proof (rule ccontr)
  assume "\<not> lo \<le> exponent m"
  then have "exponent m + 1 \<le> lo" by simp
  then have "power_int (2::rat) (exponent m + 1) \<le> power_int 2 lo" by (rule power_int_2_le)
  moreover have "0 < m" using assms power_int_2_pos [of lo] by linarith
  then have "m < power_int 2 (exponent m + 1)" using exponent_bounds by blast
  ultimately show False using assms by linarith
qed

lemma rnd_error_range:
  assumes "power_int 2 (- 1022) \<le> m" "m < power_int 2 1023"
  shows "\<exists>m'. rnd s m = DFin s m' \<and> \<bar>m' - m\<bar> \<le> m / 2 ^ 53"
proof -
  have m: "0 < m" using assms(1) power_int_2_pos [of "- 1022"] by linarith
  have lo: "- 1022 \<le> exponent m" using assms(1) by (rule exponent_at_least)
  have hi: "exponent m \<le> 1022" using m assms(2) by (intro exponent_at_most) simp_all
  from exponent_bounds [OF m] lo hi show ?thesis
    by (intro rnd_error) simp_all
qed

lemma rnd_at_most_twice:
  assumes "0 < m" "m < power_int 2 1023"
  shows "\<exists>m'. rnd s m = DFin s m' \<and> 0 \<le> m' \<and> m' \<le> 2 * m"
proof -
  define e where "e = max (exponent m) (- 1022)"
  define q :: rat where "q = power_int 2 (e - 52)"
  define n where "n = m / q"
  define m' where "m' = of_int (roundEven n) * q"
  have q: "0 < q" by (simp add: q_def)
  then have n: "0 < n" using assms(1) by (simp add: n_def)
  have nq: "n * q = m" using q by (simp add: n_def)
  have r0: "0 \<le> roundEven n"
  proof -
    have "of_int (roundEven n) \<ge> n - 1 / 2" using roundEven_error [of n] by linarith
    with n have "(of_int (roundEven n) :: rat) > of_int (- 1)" by simp
    then have "roundEven n > - 1" by (simp only: of_int_less_iff)
    then show ?thesis by simp
  qed
  have le: "m' \<le> 2 * m"
  proof (cases "n < 1 / 2")
    case True
    with n have "roundEven n = 0" by (intro roundEven_near) simp
    then show ?thesis using assms(1) by (simp add: m'_def)
  next
    case False
    have "of_int (roundEven n) \<le> n + 1 / 2" using roundEven_error [of n] by linarith
    with False have "of_int (roundEven n) \<le> 2 * n" by linarith
    then have "of_int (roundEven n) * q \<le> 2 * n * q"
      using q by (intro mult_right_mono) simp_all
    then show ?thesis by (simp add: m'_def mult.assoc nq)
  qed
  have "2 * m < 2 * power_int 2 1023" using assms(2) by simp
  also have "\<dots> = power_int (2::rat) 1024" by simp
  finally have "\<not> power_int 2 1024 \<le> m'" using le by linarith
  then have "rnd s m = DFin s m'"
    using assms(1) by (simp add: rnd_def Let_def m'_def n_def q_def e_def)
  moreover have "0 \<le> m'" using r0 q by (simp add: m'_def)
  ultimately show ?thesis using le by blast
qed

lemma scaled_back:
  assumes "0 < v" "power_int 2 (- 1022) \<le> p / v" "p / v < power_int 2 1023"
    and "power_int 2 (- 1021) \<le> p" "p < power_int 2 1022"
  shows "\<exists>w. dmul (DFin False v) (ddiv (DFin False p) (DFin False v)) = DFin False w
     \<and> \<bar>w - p\<bar> \<le> p / 2 ^ 52 + p / 2 ^ 106"
proof -
  have p: "0 < p" using assms(4) power_int_2_pos [of "- 1021"] by linarith
  from rnd_error_range [OF assms(2,3)] obtain q1 where
    q1: "rnd False (p / v) = DFin False q1" and e1: "\<bar>q1 - p / v\<bar> \<le> p / v / 2 ^ 53"
    by blast
  define t where "t = v * q1"
  have "t - p = v * (q1 - p / v)" using assms(1) by (simp add: t_def right_diff_distrib)
  then have "\<bar>t - p\<bar> = v * \<bar>q1 - p / v\<bar>" using assms(1) by (simp add: abs_mult)
  also have "\<dots> \<le> v * (p / v / 2 ^ 53)"
    using e1 assms(1) by (intro mult_left_mono) simp_all
  also have "\<dots> = p / 2 ^ 53" using assms(1) by simp
  finally have et: "\<bar>t - p\<bar> \<le> p / 2 ^ 53" .
  have tl: "p - p / 2 ^ 53 \<le> t" and tu: "t \<le> p + p / 2 ^ 53" using et by linarith+
  have h: "p / 2 ^ 53 \<le> p / 2" using p by (simp add: field_simps)
  define L :: rat where "L = power_int 2 (- 1022)"
  define U :: rat where "U = power_int 2 1022"
  have a4: "2 * L \<le> p" using assms(4) by (simp add: L_def)
  have a5: "p < U" using assms(5) by (simp add: U_def)
  have "L \<le> t" using tl h a4 by linarith
  then have lo: "power_int 2 (- 1022) \<le> t" by (simp add: L_def)
  have "t < 2 * U" using tu h a5 p by linarith
  then have hi: "t < power_int 2 1023" by (simp add: U_def)
  from rnd_error_range [OF lo hi] obtain w where
    w: "rnd False t = DFin False w" and ew: "\<bar>w - t\<bar> \<le> t / 2 ^ 53"
    by blast
  from tu have "t / 2 ^ 53 \<le> (p + p / 2 ^ 53) / 2 ^ 53" by (simp add: divide_right_mono)
  also have "\<dots> = p / 2 ^ 53 + p / 2 ^ 106" by (simp add: add_divide_distrib)
  finally have "\<bar>w - t\<bar> \<le> p / 2 ^ 53 + p / 2 ^ 106" using ew by linarith
  with et have "\<bar>w - p\<bar> \<le> p / 2 ^ 53 + p / 2 ^ 53 + p / 2 ^ 106" by linarith
  then have "\<bar>w - p\<bar> \<le> p / 2 ^ 52 + p / 2 ^ 106" by simp
  moreover have "dmul (DFin False v) (ddiv (DFin False p) (DFin False v)) = DFin False w"
    using assms(1) q1 w by (simp add: t_def)
  ultimately show ?thesis by blast
qed

lemma difference_bound:
  assumes "0 \<le> p" "0 \<le> h" "\<bar>h - p\<bar> < power_int 2 1023"
  shows "\<exists>sy y. dsub (DFin False p) (DFin False h) = DFin sy y \<and> 0 \<le> y \<and> y \<le> 2 * \<bar>h - p\<bar>"
proof (cases "p - h = 0")
  case True
  then have "dsub (DFin False p) (DFin False h) = DFin False 0"
    by (simp add: dsub_def signed_def)
  then have "dsub (DFin False p) (DFin False h) = DFin False 0 \<and> (0::rat) \<le> 0
      \<and> 0 \<le> 2 * \<bar>h - p\<bar>"
    by simp
  then show ?thesis by blast
next
  case False
  then have "0 < \<bar>p - h\<bar>" by simp
  moreover have "\<bar>p - h\<bar> < power_int 2 1023" using assms(3) by (simp add: abs_minus_commute)
  ultimately obtain y where "rnd (p - h < 0) \<bar>p - h\<bar> = DFin (p - h < 0) y" "0 \<le> y"
    "y \<le> 2 * \<bar>p - h\<bar>"
    using rnd_at_most_twice by blast
  then show ?thesis
    using False by (auto simp: dsub_def signed_def Let_def abs_minus_commute)
qed

lemma rnd_roundings:
  assumes "power_int 2 (- 1022) \<le> m" "m < power_int 2 1023"
  shows "\<exists>m'. rnd s m = DFin s m' \<and> roundings 1 m m'"
proof -
  from rnd_error_range [OF assms] obtain m' where
    r: "rnd s m = DFin s m'" and e: "\<bar>m' - m\<bar> \<le> m / 2 ^ 53"
    by blast
  define d where "d = m / 2 ^ 53"
  have lo: "m * (1 - 1 / 2 ^ 53) ^ 1 = m - d" and up: "m * (1 + 1 / 2 ^ 53) ^ 1 = m + d"
    by (simp_all add: d_def algebra_simps)
  from e have "\<bar>m' - m\<bar> \<le> d" by (simp only: d_def)
  then have "m - d \<le> m' \<and> m' \<le> m + d" by linarith
  then have "roundings 1 m m'" unfolding roundings_def lo up .
  with r show ?thesis by blast
qed

lemma roundings_refl: "roundings 0 v v"
  by (simp add: roundings_def)

lemma roundings_trans:
  assumes "roundings j a b" "roundings k b c"
  shows "roundings (j + k) a c"
proof -
  have l: "(0::rat) \<le> (1 - 1 / 2 ^ 53) ^ k" and u: "(0::rat) \<le> (1 + 1 / 2 ^ 53) ^ k"
    by simp_all
  have "a * (1 - 1 / 2 ^ 53) ^ j * (1 - 1 / 2 ^ 53) ^ k \<le> b * (1 - 1 / 2 ^ 53) ^ k"
    using assms(1) l unfolding roundings_def by (intro mult_right_mono) blast+
  moreover have "b * (1 + 1 / 2 ^ 53) ^ k \<le> a * (1 + 1 / 2 ^ 53) ^ j * (1 + 1 / 2 ^ 53) ^ k"
    using assms(1) u unfolding roundings_def by (intro mult_right_mono) blast+
  ultimately show ?thesis
    using assms(2) unfolding roundings_def power_add mult.assoc by linarith
qed

lemma roundings_nonneg:
  assumes "roundings k a x" "0 \<le> a"
  shows "0 \<le> x"
proof -
  have "(0::rat) \<le> (1 - 1 / 2 ^ 53) ^ k" by simp
  then have "0 \<le> a * (1 - 1 / 2 ^ 53) ^ k" using assms(2) by (rule mult_nonneg_nonneg [rotated])
  then show ?thesis using assms(1) unfolding roundings_def by linarith
qed

lemma roundings_mult:
  assumes "roundings j a x" "roundings k b y" "0 \<le> a" "0 \<le> b"
  shows "roundings (j + k) (a * b) (x * y)"
proof -
  define L :: rat where "L = 1 - 1 / 2 ^ 53"
  define U :: rat where "U = 1 + 1 / 2 ^ 53"
  have L: "0 \<le> L" and U: "0 \<le> U" by (simp_all add: L_def U_def)
  have x: "0 \<le> x" and y: "0 \<le> y" using assms by (blast intro: roundings_nonneg)+
  have a: "a * L ^ j \<le> x" "x \<le> a * U ^ j" and b: "b * L ^ k \<le> y" "y \<le> b * U ^ k"
    using assms(1,2) by (simp_all add: roundings_def L_def U_def)
  have "(a * L ^ j) * (b * L ^ k) \<le> x * y"
    using a(1) b(1) x assms(4) L by (intro mult_mono) simp_all
  moreover have "x * y \<le> (a * U ^ j) * (b * U ^ k)"
    using a(2) b(2) y assms(3) U by (intro mult_mono) simp_all
  ultimately have "a * b * L ^ (j + k) \<le> x * y \<and> x * y \<le> a * b * U ^ (j + k)"
    by (simp add: power_add mult_ac)
  then show ?thesis by (simp add: roundings_def L_def U_def)
qed

lemma roundings_bounds:
  assumes "roundings k a x" "k \<le> 3" "0 \<le> a"
  shows "a / 2 \<le> x \<and> x \<le> 2 * a"
proof -
  define L :: rat where "L = 1 - 1 / 2 ^ 53"
  define U :: rat where "U = 1 + 1 / 2 ^ 53"
  have L: "0 \<le> L" "L \<le> 1" and U: "1 \<le> U" by (simp_all add: L_def U_def)
  have "L ^ 3 \<le> L ^ k" using assms(2) L by (intro power_decreasing) simp_all
  moreover have "1 / 2 \<le> L ^ 3" by (simp add: L_def power3_eq_cube)
  ultimately have l: "1 / 2 \<le> L ^ k" by linarith
  have "U ^ k \<le> U ^ 3" using assms(2) U by (intro power_increasing) simp_all
  moreover have "U ^ 3 \<le> 2" by (simp add: U_def power3_eq_cube)
  ultimately have u: "U ^ k \<le> 2" by linarith
  have "a * (1 / 2) \<le> a * L ^ k" using l assms(3) by (rule mult_left_mono)
  moreover have "a * U ^ k \<le> a * 2" using u assms(3) by (rule mult_left_mono)
  moreover have "a * L ^ k \<le> x" "x \<le> a * U ^ k"
    using assms(1) by (simp_all add: roundings_def L_def U_def)
  ultimately show ?thesis by simp
qed

lemma normalRange_rnd:
  assumes "normalRange a" "roundings k a t" "k \<le> 3"
  shows "\<exists>w. rnd s t = DFin s w \<and> roundings (Suc k) a w"
proof -
  define lo :: rat where "lo = power_int 2 (- 1022)"
  define hi :: rat where "hi = power_int 2 1023"
  have a: "2 * lo \<le> a" "2 * a < hi" using assms(1) by (simp_all add: normalRange_def lo_def hi_def)
  have "0 < lo" by (simp add: lo_def)
  with a have "0 \<le> a" by linarith
  from roundings_bounds [OF assms(2,3) this] a have "lo \<le> t" "t < hi" by linarith+
  then have "power_int 2 (- 1022) \<le> t" "t < power_int 2 1023" by (simp_all only: lo_def hi_def)
  from rnd_roundings [OF this] obtain w where "rnd s t = DFin s w" "roundings 1 t w" by blast
  with roundings_trans [OF assms(2), of 1 w] show ?thesis by auto
qed

lemma scaled:
  assumes "0 < v" "normalRange (p / v)" "roundings j c c1" "j \<le> 1" "0 \<le> c"
    and "normalRange (c * (p / v))"
  shows "\<exists>w. dmul (DFin False c1) (ddiv (DFin False p) (DFin False v)) = DFin False w
     \<and> roundings (j + 2) (c * (p / v)) w"
proof -
  have "0 < power_int (2::rat) (- 1021)" by simp
  with assms(2) have q: "0 \<le> p / v" unfolding normalRange_def by linarith
  from normalRange_rnd [OF assms(2) roundings_refl, of False] obtain q1 where
    q1: "rnd False (p / v) = DFin False q1" "roundings 1 (p / v) q1"
    by auto
  have "roundings (j + 1) (c * (p / v)) (c1 * q1)"
    using assms(3) q1(2) assms(5) q by (rule roundings_mult)
  from normalRange_rnd [OF assms(6) this, of False] assms(4) obtain w where
    w: "rnd False (c1 * q1) = DFin False w" "roundings (j + 2) (c * (p / v)) w"
    by auto
  have "dmul (DFin False c1) (ddiv (DFin False p) (DFin False v)) = DFin False w"
    using assms(1) q1(1) w(1) by simp
  with w(2) show ?thesis by blast
qed

lemma scaled_zero:
  assumes "0 < v" "normalRange (p / v)"
  shows "dmul (DFin False 0) (ddiv (DFin False p) (DFin False v)) = DFin False 0"
proof -
  from normalRange_rnd [OF assms(2) roundings_refl, of False] obtain q1 where
    "rnd False (p / v) = DFin False q1"
    by auto
  then show ?thesis using assms(1) by (simp add: rnd_zero)
qed

lemma added:
  assumes "0 \<le> a" "0 \<le> b" "normalRange (a + b)"
  shows "\<exists>c. dadd (DFin False a) (DFin False b) = DFin False c \<and> roundings 1 (a + b) c"
proof -
  have "0 < power_int (2::rat) (- 1021)" by simp
  with assms(3) have "0 < a + b" unfolding normalRange_def by linarith
  then have "dadd (DFin False a) (DFin False b) = rnd False (a + b)"
    by (simp add: signed_def Let_def)
  with normalRange_rnd [OF assms(3) roundings_refl, of False] show ?thesis by auto
qed

lemma rnd_absolute:
  assumes "0 < m" "m < power_int 2 1023"
  shows "\<exists>m'. rnd s m = DFin s m' \<and> \<bar>m' - m\<bar> \<le> m / 2 ^ 53 + power_int 2 (- 1075)"
proof (cases "power_int 2 (- 1022) \<le> m")
  case True
  from rnd_error_range [OF True assms(2)] obtain m' where
    "rnd s m = DFin s m'" "\<bar>m' - m\<bar> \<le> m / 2 ^ 53"
    by blast
  moreover have "0 < power_int (2::rat) (- 1075)" by simp
  ultimately have "rnd s m = DFin s m' \<and> \<bar>m' - m\<bar> \<le> m / 2 ^ 53 + power_int 2 (- 1075)"
    by linarith
  then show ?thesis by blast
next
  case False
  then have "m < power_int 2 (- 1023 + 1)" by simp
  with assms(1) have "exponent m \<le> - 1023" by (rule exponent_at_most)
  then have e: "max (exponent m) (- 1022) = - 1022" by simp
  define q :: rat where "q = power_int 2 (- 1074)"
  define n where "n = m / q"
  have q: "0 < q" by (simp add: q_def)
  have nq: "n * q = m" using q by (simp add: n_def)
  from rnd_at_most_twice [OF assms] obtain m' where m': "rnd s m = DFin s m'" by blast
  then have "m' = of_int (roundEven n) * q"
    using assms(1) unfolding rnd_def e Let_def n_def q_def
    by (simp split: if_splits)
  then have "m' - m = (of_int (roundEven n) - n) * q" by (simp add: left_diff_distrib nq)
  then have "\<bar>m' - m\<bar> = \<bar>of_int (roundEven n) - n\<bar> * q" using q by (simp add: abs_mult)
  also have "\<dots> \<le> 1 / 2 * q"
    using roundEven_error [of n] q by (intro mult_right_mono) simp_all
  also have "\<dots> = power_int 2 (- 1075)"
    using power_int_2_Suc [of "- 1075"] by (simp add: q_def)
  finally have "\<bar>m' - m\<bar> \<le> power_int 2 (- 1075)" .
  moreover have "0 \<le> m / 2 ^ 53" using assms(1) by simp
  ultimately have "\<bar>m' - m\<bar> \<le> m / 2 ^ 53 + power_int 2 (- 1075)" by linarith
  with m' show ?thesis by blast
qed

lemma subtracted:
  assumes "\<bar>p - h\<bar> < power_int 2 1023"
  shows "\<exists>sy y. dsub (DFin False p) (DFin False h) = DFin sy y
     \<and> \<bar>signed sy y - (p - h)\<bar> \<le> \<bar>p - h\<bar> / 2 ^ 53 + power_int 2 (- 1075)"
proof (cases "p - h = 0")
  case True
  then have "dsub (DFin False p) (DFin False h) = DFin False 0
      \<and> \<bar>signed False 0 - (p - h)\<bar> \<le> \<bar>p - h\<bar> / 2 ^ 53 + power_int 2 (- 1075)"
    by (simp add: dsub_def signed_def)
  then show ?thesis by blast
next
  case False
  define v where "v = p - h"
  have v: "0 < \<bar>v\<bar>" "\<bar>v\<bar> < power_int 2 1023" using False assms by (simp_all add: v_def)
  from rnd_absolute [OF v, of "v < 0"] obtain y where
    y: "rnd (v < 0) \<bar>v\<bar> = DFin (v < 0) y"
       "\<bar>y - \<bar>v\<bar>\<bar> \<le> \<bar>v\<bar> / 2 ^ 53 + power_int 2 (- 1075)"
    by blast
  have "\<bar>signed (v < 0) y - v\<bar> = \<bar>y - \<bar>v\<bar>\<bar>"
  proof (cases "v < 0")
    case True
    then have "signed (v < 0) y - v = - (y - \<bar>v\<bar>)" by (simp add: signed_def)
    then show ?thesis by (simp only: abs_minus)
  next
    case False
    then show ?thesis by (simp add: signed_def)
  qed
  with y(2) have "\<bar>signed (v < 0) y - v\<bar> \<le> \<bar>v\<bar> / 2 ^ 53 + power_int 2 (- 1075)" by simp
  moreover have "dsub (DFin False p) (DFin False h) = DFin (v < 0) y"
    using False y(1) by (simp add: dsub_def signed_def Let_def v_def)
  ultimately show ?thesis unfolding v_def by blast
qed

section \<open>The crop rectangle\<close>

lemma representable_grid:
  assumes "2 ^ 52 \<le> k" "k < 2 ^ 53" "- 1022 \<le> e" "e \<le> 1022"
  shows "representable (of_int k * power_int 2 (e - 52))"
proof -
  have "(0::rat) \<le> of_int k" using assms(1) by simp
  then have "(0::rat) \<le> of_int k * power_int 2 (e - 52)" by simp
  with rnd_grid [OF assms] show ?thesis by (simp only: representable_def simp_thms)
qed

lemma representable_sample:
  "representable 600" "representable 800" "representable 1600" "representable (1 / 2)"
  using representable_grid [of "600 * 2 ^ 43" 9] representable_grid [of "800 * 2 ^ 43" 9]
    representable_grid [of "1600 * 2 ^ 42" 10] representable_grid [of "2 ^ 52" "- 1"]
  by simp_all

lemma representable_1200: "representable 1200"
  using representable_grid [of "1200 * 2 ^ 42" 10] by simp

lemma normalRange_pos: "normalRange m \<Longrightarrow> 0 < m"
proof -
  assume "normalRange m"
  moreover have "0 < power_int (2::rat) (- 1021)" by simp
  ultimately show ?thesis unfolding normalRange_def by linarith
qed

lemma factor_nonneg:
  fixes c q :: rat
  assumes "0 < c * q" "0 < q"
  shows "0 \<le> c"
  using assms by (simp add: zero_less_mult_iff)

lemma scaled_exact:
  assumes "0 < v" "normalRange (p / v)" "0 \<le> c" "normalRange (c * (p / v))"
  shows "\<exists>w. dmul (DFin False c) (ddiv (DFin False p) (DFin False v)) = DFin False w
     \<and> roundings 2 (c * (p / v)) w"
proof -
  have "(0::nat) \<le> 1" by simp
  from scaled [OF assms(1,2) roundings_refl this assms(3,4)] show ?thesis
    by (simp only: add_0)
qed

lemma scaled_rounded:
  assumes "0 < v" "normalRange (p / v)" "roundings 1 c c1" "0 \<le> c"
    and "normalRange (c * (p / v))"
  shows "\<exists>w. dmul (DFin False c1) (ddiv (DFin False p) (DFin False v)) = DFin False w
     \<and> roundings 3 (c * (p / v)) w"
proof -
  have "(1::nat) \<le> 1" by simp
  from scaled [OF assms(1,2,3) this assms(4,5)] show ?thesis
    by (simp only: one_add_one numeral_plus_numeral semiring_norm)
qed

lemma cropRectOf_bounds:
  assumes v: "0 < vw" "0 < vh"
    and sx: "normalRange (pw / vw)" and sy: "normalRange (ph / vh)"
    and x: "x0 = 0 \<or> normalRange (x0 * (pw / vw))"
    and w: "normalRange (w0 * (pw / vw))" and h: "normalRange (h0 * (ph / vh))"
    and y: "0 \<le> y0" "normalRange (y0 + h0)" "normalRange ((y0 + h0) * (ph / vh))"
    and p: "ph < power_int 2 1023"
  shows "\<exists>x sy y w h m.
      cropRectOf (DFin False pw, DFin False ph)
        \<lparr>cx = DFin False x0, cy = DFin False y0, cwidth = DFin False w0, cheight = DFin False h0\<rparr>
        (DFin False vw) (DFin False vh) =
        (DFin False x, DFin sy y, DFin False w, DFin False h)
    \<and> roundings 2 (x0 * (pw / vw)) x
    \<and> roundings 2 (w0 * (pw / vw)) w
    \<and> roundings 2 (h0 * (ph / vh)) h
    \<and> roundings 3 ((y0 + h0) * (ph / vh)) m
    \<and> \<bar>signed sy y - (ph - m)\<bar> \<le> \<bar>ph - m\<bar> / 2 ^ 53 + power_int 2 (- 1075)"
proof -
  have qx: "0 < pw / vw" and qy: "0 < ph / vh" using sx sy by (simp_all only: normalRange_pos)
  have ph: "0 < ph" using qy v(2) by (simp add: zero_less_divide_iff)
  have w0: "0 \<le> w0" using normalRange_pos [OF w] qx by (rule factor_nonneg)
  have h0: "0 \<le> h0" using normalRange_pos [OF h] qy by (rule factor_nonneg)
  obtain x where x': "dmul (DFin False x0) (ddiv (DFin False pw) (DFin False vw)) = DFin False x"
      "roundings 2 (x0 * (pw / vw)) x"
  proof (cases "x0 = 0")
    case True
    have "roundings 2 (0 * (pw / vw)) 0" by (simp add: roundings_def)
    with scaled_zero [OF v(1) sx] True that [of 0] show ?thesis by blast
  next
    case False
    with x have n: "normalRange (x0 * (pw / vw))" by simp
    have "0 \<le> x0" using normalRange_pos [OF n] qx by (rule factor_nonneg)
    from scaled_exact [OF v(1) sx this n] that show ?thesis by blast
  qed
  from scaled_exact [OF v(1) sx w0 w] obtain w where
    w': "dmul (DFin False w0) (ddiv (DFin False pw) (DFin False vw)) = DFin False w"
      "roundings 2 (w0 * (pw / vw)) w"
    by blast
  from scaled_exact [OF v(2) sy h0 h] obtain h where
    h': "dmul (DFin False h0) (ddiv (DFin False ph) (DFin False vh)) = DFin False h"
      "roundings 2 (h0 * (ph / vh)) h"
    by blast
  from added [OF y(1) h0 y(2)] obtain c where
    c: "dadd (DFin False y0) (DFin False h0) = DFin False c" "roundings 1 (y0 + h0) c"
    by blast
  have s0: "0 \<le> y0 + h0" using y(1) h0 by simp
  from scaled_rounded [OF v(2) sy c(2) s0 y(3)] obtain m where
    m: "dmul (DFin False c) (ddiv (DFin False ph) (DFin False vh)) = DFin False m"
      "roundings 3 ((y0 + h0) * (ph / vh)) m"
    by blast
  define S where "S = (y0 + h0) * (ph / vh)"
  define hi :: rat where "hi = power_int 2 1023"
  have S: "0 \<le> S" "2 * S < hi"
    using normalRange_pos [OF y(3)] y(3) by (simp_all add: S_def hi_def normalRange_def)
  have "(3::nat) \<le> 3" by simp
  from roundings_bounds [OF m(2) this S(1) [unfolded S_def]] S(1)
  have "0 \<le> m" "m \<le> 2 * S"
    unfolding S_def [symmetric] by linarith+
  with S(2) ph p have "\<bar>ph - m\<bar> < hi" unfolding hi_def by linarith
  from subtracted [OF this [unfolded hi_def]] obtain sy y where
    y': "dsub (DFin False ph) (DFin False m) = DFin sy y"
      "\<bar>signed sy y - (ph - m)\<bar> \<le> \<bar>ph - m\<bar> / 2 ^ 53 + power_int 2 (- 1075)"
    by blast
  have "cropRectOf (DFin False pw, DFin False ph)
        \<lparr>cx = DFin False x0, cy = DFin False y0, cwidth = DFin False w0, cheight = DFin False h0\<rparr>
        (DFin False vw) (DFin False vh) =
        (DFin False x, DFin sy y, DFin False w, DFin False h)"
    unfolding cropRectOf_def Let_def by (simp add: x'(1) w'(1) h'(1) c(1) m(1) y'(1) del: ddiv.simps dmul.simps dadd.simps)
  with x'(2) w'(2) h'(2) m(2) y'(2) show ?thesis by blast
qed

lemma cropRectOf_full:
  assumes v: "0 < vw" "0 < vh" and r: "representable vh"
    and sx: "normalRange (pw / vw)" and sy: "normalRange (ph / vh)"
    and p: "normalRange pw" "normalRange ph"
  shows "\<exists>sy y w h.
      cropRectOf (DFin False pw, DFin False ph)
        \<lparr>cx = DFin False 0, cy = DFin False 0, cwidth = DFin False vw, cheight = DFin False vh\<rparr>
        (DFin False vw) (DFin False vh) =
        (DFin False 0, DFin sy y, DFin False w, DFin False h)
    \<and> roundings 2 pw w \<and> roundings 2 ph h
    \<and> \<bar>signed sy y\<bar> \<le> ph / 2 ^ 50"
proof -
  have w0: "vw * (pw / vw) = pw" and h0: "vh * (ph / vh) = ph" using v by simp_all
  have x: "dmul (DFin False 0) (ddiv (DFin False pw) (DFin False vw)) = DFin False 0"
    using v(1) sx by (rule scaled_zero)
  have nw: "normalRange (vw * (pw / vw))" and nh: "normalRange (vh * (ph / vh))"
    unfolding w0 h0 by (rule p)+
  have v0: "0 \<le> vw" "0 \<le> vh" using v by simp_all
  from scaled_exact [OF v(1) sx v0(1) nw] obtain w where
    w: "dmul (DFin False vw) (ddiv (DFin False pw) (DFin False vw)) = DFin False w"
      "roundings 2 pw w"
    unfolding w0 by blast
  from scaled_exact [OF v(2) sy v0(2) nh] obtain h where
    h: "dmul (DFin False vh) (ddiv (DFin False ph) (DFin False vh)) = DFin False h"
      "roundings 2 ph h"
    unfolding h0 by blast
  have c: "dadd (DFin False 0) (DFin False vh) = DFin False vh"
    using v(2) r by (simp add: signed_def Let_def representable_def)
  define u :: rat where "u = 1 / 2 ^ 53"
  define a where "a = ph * u"
  define T :: rat where "T = power_int 2 (- 1075)"
  define D where "D = \<bar>ph - h\<bar>"
  have u: "0 < u" "u \<le> 1" by (simp_all add: u_def)
  have ph: "0 < ph" using p(2) by (rule normalRange_pos)
  have a: "0 < a" using ph u(1) by (simp add: a_def)
  define lo :: rat where "lo = power_int 2 (- 1021)"
  define hi :: rat where "hi = power_int 2 1023"
  have pr: "lo \<le> ph" "2 * ph < hi"
    using p(2) by (simp_all add: normalRange_def lo_def hi_def)
  have "lo * u \<le> ph * u" using pr(1) u(1) by (intro mult_right_mono) simp_all
  moreover have "T \<le> lo * u" by (simp add: T_def lo_def u_def)
  ultimately have T: "T \<le> a" unfolding a_def by linarith
  have "a * u \<le> a * 1" using a u(2) by (intro mult_left_mono) simp_all
  then have au: "a * u \<le> a" by simp
  have e: "ph * (1 - u) ^ 2 = ph - 2 * a + a * u" "ph * (1 + u) ^ 2 = ph + 2 * a + a * u"
    by (simp_all add: a_def power2_eq_square algebra_simps)
  have "ph * (1 - u) ^ 2 \<le> h \<and> h \<le> ph * (1 + u) ^ 2"
    using h(2) by (simp only: roundings_def u_def)
  then have "ph - 2 * a + a * u \<le> h \<and> h \<le> ph + 2 * a + a * u" unfolding e .
  moreover have "0 \<le> a * u" using a u(1) by simp
  ultimately have D: "D \<le> 3 * a" using au a unfolding D_def by linarith
  have D0: "0 \<le> D" by (simp add: D_def)
  have "D * u \<le> D * 1" using D0 u(2) by (intro mult_left_mono) simp_all
  then have Du: "D * u \<le> D" by simp
  have "0 \<le> ph" using ph by simp
  with h(2) have "0 \<le> h" by (rule roundings_nonneg)
  have "(2::nat) \<le> 3" by simp
  from roundings_bounds [OF h(2) this] ph have "h \<le> 2 * ph" by simp
  with pr(2) \<open>0 \<le> h\<close> ph have "\<bar>ph - h\<bar> < hi" by linarith
  from subtracted [OF this [unfolded hi_def]] obtain sy y where
    y: "dsub (DFin False ph) (DFin False h) = DFin sy y"
      "\<bar>signed sy y - (ph - h)\<bar> \<le> \<bar>ph - h\<bar> / 2 ^ 53 + power_int 2 (- 1075)"
    by blast
  have "\<bar>ph - h\<bar> / 2 ^ 53 = D * u" by (simp only: D_def u_def times_divide_eq_right mult_1_right)
  with y(2) have "\<bar>signed sy y - (ph - h)\<bar> \<le> D * u + T" by (simp only: T_def)
  with Du T have "\<bar>signed sy y - (ph - h)\<bar> \<le> D + a" by linarith
  then have "\<bar>signed sy y\<bar> \<le> D + D + a" unfolding D_def by linarith
  with D have "\<bar>signed sy y\<bar> \<le> 8 * a" using a by linarith
  also have "8 * a = ph / 2 ^ 50" by (simp add: a_def u_def)
  finally have yb: "\<bar>signed sy y\<bar> \<le> ph / 2 ^ 50" .
  have "cropRectOf (DFin False pw, DFin False ph)
        \<lparr>cx = DFin False 0, cy = DFin False 0, cwidth = DFin False vw, cheight = DFin False vh\<rparr>
        (DFin False vw) (DFin False vh) =
        (DFin False 0, DFin sy y, DFin False w, DFin False h)"
    unfolding cropRectOf_def Let_def by (simp add: x w(1) h(1) c y(1) del: ddiv.simps dmul.simps dadd.simps)
  with w(2) h(2) yb show ?thesis by blast
qed

lemma cropRectOf_exact:
  assumes v: "0 < vw" "0 < vh"
    and r: "representable pw" "representable ph" "representable vh"
    and q: "representable (pw / vw)" "representable (ph / vh)"
  shows "cropRectOf (DFin False pw, DFin False ph)
        \<lparr>cx = DFin False 0, cy = DFin False 0, cwidth = DFin False vw, cheight = DFin False vh\<rparr>
        (DFin False vw) (DFin False vh) =
        (DFin False 0, DFin False 0, DFin False pw, DFin False ph)"
proof -
  have sx: "ddiv (DFin False pw) (DFin False vw) = DFin False (pw / vw)"
    using v(1) q(1) by (simp add: representable_def)
  have sy: "ddiv (DFin False ph) (DFin False vh) = DFin False (ph / vh)"
    using v(2) q(2) by (simp add: representable_def)
  have x: "dmul (DFin False 0) (DFin False (pw / vw)) = DFin False 0"
    by (simp add: rnd_zero)
  have w: "dmul (DFin False vw) (DFin False (pw / vw)) = DFin False pw"
    using v(1) r(1) by (simp add: representable_def)
  have h: "dmul (DFin False vh) (DFin False (ph / vh)) = DFin False ph"
    using v(2) r(2) by (simp add: representable_def)
  have c: "dadd (DFin False 0) (DFin False vh) = DFin False vh"
    using v(2) r(3) by (simp add: signed_def Let_def representable_def)
  have y: "dsub (DFin False ph) (DFin False ph) = DFin False 0"
    by (simp add: dsub_def signed_def)
  show ?thesis
    unfolding cropRectOf_def Let_def by (simp add: sx sy x w h c y del: ddiv.simps dmul.simps dadd.simps)
qed

text \<open>
  C5, the claim as stated, fails: the rectangle is computed in doubles, and a quotient
  that is rounded does not multiply back to the size of the page. For a page of size 1
  by 1 and a preview of 49 by 49, all of them doubles, the rectangle of the whole preview
  is mapped to \<open>(0, 2^-53, 1 - 2^-53, 1 - 2^-53)\<close>, not to \<open>(0, 0, 1, 1)\<close>, and this is the
  crop box that \<open>cropPage\<close> sets.
\<close>

theorem cropPage_counterexample:
  "cropRectOf (DFin False 1, DFin False 1)
     \<lparr>cx = DFin False 0, cy = DFin False 0, cwidth = DFin False 49, cheight = DFin False 49\<rparr>
     (DFin False 49) (DFin False 49) =
     (DFin False 0, DFin False (1 / 2 ^ 53), DFin False (1 - 1 / 2 ^ 53),
      DFin False (1 - 1 / 2 ^ 53))
   \<and> cropRectOf (DFin False 1, DFin False 1)
     \<lparr>cx = DFin False 0, cy = DFin False 0, cwidth = DFin False 49, cheight = DFin False 49\<rparr>
     (DFin False 49) (DFin False 49) \<noteq>
     (DFin False 0, DFin False 0, DFin False 1, DFin False 1)
   \<and> cropPage (Pdf [(samplePage 0)\<lparr>getSize := (DFin False 1, DFin False 1)\<rparr>]) (Num 0)
     \<lparr>cx = DFin False 0, cy = DFin False 0, cwidth = DFin False 49, cheight = DFin False 49\<rparr>
     (DFin False 49) (DFin False 49) =
     Inr (Pdf [(samplePage 0)\<lparr>getSize := (DFin False 1, DFin False 1),
       cropRect := Some (DFin False 0, DFin False (1 / 2 ^ 53), DFin False (1 - 1 / 2 ^ 53),
         DFin False (1 - 1 / 2 ^ 53))\<rparr>])
   \<and> representable 1 \<and> representable 49"
proof -
  let ?s = "DFin False (5882252574524729 / 2 ^ 58)"
  let ?w = "DFin False (1 - 1 / 2 ^ 53)"
  have s1: "ddiv (DFin False 1) (DFin False 49) = ?s"
    by (simp add: rnd_1_49)
  have w1: "dmul (DFin False 49) ?s = ?w"
    using rnd_eval [of "- 1" "49 * (5882252574524729 / 2 ^ 58)" 9007199254740991 False]
    by simp
  have a1: "dadd (DFin False 0) (DFin False 49) = DFin False 49"
    using rnd_49 [of False] by (simp add: signed_def)
  have x1: "dmul (DFin False 0) ?s = DFin False 0"
    by (simp add: rnd_zero)
  have y1: "dsub (DFin False 1) ?w = DFin False (1 / 2 ^ 53)"
    using rnd_ulp [of False] by (simp add: dsub_def signed_def)
  have "cropRectOf (DFin False 1, DFin False 1)
     \<lparr>cx = DFin False 0, cy = DFin False 0, cwidth = DFin False 49, cheight = DFin False 49\<rparr>
     (DFin False 49) (DFin False 49) =
     (dmul (DFin False 0) (ddiv (DFin False 1) (DFin False 49)),
      dsub (DFin False 1)
        (dmul (dadd (DFin False 0) (DFin False 49)) (ddiv (DFin False 1) (DFin False 49))),
      dmul (DFin False 49) (ddiv (DFin False 1) (DFin False 49)),
      dmul (DFin False 49) (ddiv (DFin False 1) (DFin False 49)))"
    by (simp add: cropRectOf_def Let_def)
  also have "\<dots> = (DFin False 0, DFin False (1 / 2 ^ 53), ?w, ?w)"
    by (simp only: s1 a1 w1 x1 y1)
  finally have r: "cropRectOf (DFin False 1, DFin False 1)
     \<lparr>cx = DFin False 0, cy = DFin False 0, cwidth = DFin False 49, cheight = DFin False 49\<rparr>
     (DFin False 49) (DFin False 49) = (DFin False 0, DFin False (1 / 2 ^ 53), ?w, ?w)" .
  have c: "cropPage (Pdf [(samplePage 0)\<lparr>getSize := (DFin False 1, DFin False 1)\<rparr>]) (Num 0)
     \<lparr>cx = DFin False 0, cy = DFin False 0, cwidth = DFin False 49, cheight = DFin False 49\<rparr>
     (DFin False 49) (DFin False 49) =
     Inr (Pdf [(samplePage 0)\<lparr>getSize := (DFin False 1, DFin False 1),
       cropRect := Some (DFin False 0, DFin False (1 / 2 ^ 53), ?w, ?w)\<rparr>])"
    by (simp add: cropPage_def save_def Let_def r)
  show ?thesis
    unfolding r c using representable_values by simp
qed

text \<open>
  C5, amended. \<open>cropPage\<close> sets the crop box of the selected page to the rectangle of
  \<open>cropRectOf\<close> and leaves the other pages as they are; a page index that selects no page
  raises. The rectangle is the one of the formulas \<open>x * scaleX\<close>,
  \<open>pageH - (y + height) * scaleY\<close>, \<open>width * scaleX\<close>, \<open>height * scaleY\<close> with
  \<open>scaleX = pageW / previewW\<close> and \<open>scaleY = pageH / previewH\<close>, each operation rounded to a
  double: for a preview of positive size and values in the normal range, \<open>x\<close>, the width
  and the height are the exact values after two roundings, and \<open>y\<close> is the rounded
  difference of \<open>pageH\<close> and a value that is \<open>(y + height) * scaleY\<close> after three roundings.
  The rectangle of the whole preview is mapped to \<open>(0, y, w, h)\<close> with \<open>w\<close> and \<open>h\<close> two
  roundings away from \<open>pageW\<close> and \<open>pageH\<close> and \<open>y\<close> at most \<open>pageH / 2^50\<close> in magnitude; it is
  mapped to \<open>(0, 0, pageW, pageH)\<close>, without any rounding error, whenever the two scales
  \<open>pageW / previewW\<close> and \<open>pageH / previewH\<close> are doubles themselves, and so for a preview
  of the size of the page.
\<close>

theorem cropPage_mapping:
  "(arrayIndex (length ps) pageIx = Some k \<longrightarrow>
      cropPage (Pdf ps) pageIx box previewW previewH =
        Inr (Pdf (ps[k := (ps ! k)\<lparr>cropRect :=
               Some (cropRectOf (getSize (ps ! k)) box previewW previewH)\<rparr>])))
   \<and> (arrayIndex (length ps) pageIx = None \<longrightarrow>
      cropPage (Pdf ps) pageIx box previewW previewH = Inl TypeError)
   \<and> (0 < vw \<and> 0 < vh \<and> normalRange (pw / vw) \<and> normalRange (ph / vh)
        \<and> (x0 = 0 \<or> normalRange (x0 * (pw / vw)))
        \<and> normalRange (w0 * (pw / vw)) \<and> normalRange (h0 * (ph / vh))
        \<and> 0 \<le> y0 \<and> normalRange (y0 + h0) \<and> normalRange ((y0 + h0) * (ph / vh))
        \<and> ph < power_int 2 1023 \<longrightarrow>
      (\<exists>x sy y w h m.
          cropRectOf (DFin False pw, DFin False ph)
            \<lparr>cx = DFin False x0, cy = DFin False y0,
               cwidth = DFin False w0, cheight = DFin False h0\<rparr>
            (DFin False vw) (DFin False vh) =
            (DFin False x, DFin sy y, DFin False w, DFin False h)
        \<and> roundings 2 (x0 * (pw / vw)) x
        \<and> roundings 2 (w0 * (pw / vw)) w
        \<and> roundings 2 (h0 * (ph / vh)) h
        \<and> roundings 3 ((y0 + h0) * (ph / vh)) m
        \<and> \<bar>signed sy y - (ph - m)\<bar> \<le> \<bar>ph - m\<bar> / 2 ^ 53 + power_int 2 (- 1075)))
   \<and> (0 < fw \<and> 0 < fh \<and> representable fh
        \<and> normalRange (pw / fw) \<and> normalRange (ph / fh)
        \<and> normalRange pw \<and> normalRange ph \<longrightarrow>
      (\<exists>sy y w h.
          cropRectOf (DFin False pw, DFin False ph)
            \<lparr>cx = DFin False 0, cy = DFin False 0,
               cwidth = DFin False fw, cheight = DFin False fh\<rparr>
            (DFin False fw) (DFin False fh) =
            (DFin False 0, DFin sy y, DFin False w, DFin False h)
        \<and> roundings 2 pw w \<and> roundings 2 ph h
        \<and> \<bar>signed sy y\<bar> \<le> ph / 2 ^ 50))
   \<and> (0 < ew \<and> 0 < eh \<and> representable pw \<and> representable ph \<and> representable eh
        \<and> representable (pw / ew) \<and> representable (ph / eh) \<longrightarrow>
      cropRectOf (DFin False pw, DFin False ph)
        \<lparr>cx = DFin False 0, cy = DFin False 0,
           cwidth = DFin False ew, cheight = DFin False eh\<rparr>
        (DFin False ew) (DFin False eh) =
        (DFin False 0, DFin False 0, DFin False pw, DFin False ph))
   \<and> (0 < pw \<and> 0 < ph \<and> representable pw \<and> representable ph \<longrightarrow>
      cropRectOf (DFin False pw, DFin False ph)
        \<lparr>cx = DFin False 0, cy = DFin False 0,
           cwidth = DFin False pw, cheight = DFin False ph\<rparr>
        (DFin False pw) (DFin False ph) =
        (DFin False 0, DFin False 0, DFin False pw, DFin False ph))"
proof (intro conjI impI)
  assume "arrayIndex (length ps) pageIx = Some k"
  then show "cropPage (Pdf ps) pageIx box previewW previewH =
        Inr (Pdf (ps[k := (ps ! k)\<lparr>cropRect :=
               Some (cropRectOf (getSize (ps ! k)) box previewW previewH)\<rparr>]))"
    by (simp add: cropPage_def save_def Let_def)
next
  assume "arrayIndex (length ps) pageIx = None"
  then show "cropPage (Pdf ps) pageIx box previewW previewH = Inl TypeError"
    by (simp add: cropPage_def)
next
  assume "0 < vw \<and> 0 < vh \<and> normalRange (pw / vw) \<and> normalRange (ph / vh)
        \<and> (x0 = 0 \<or> normalRange (x0 * (pw / vw)))
        \<and> normalRange (w0 * (pw / vw)) \<and> normalRange (h0 * (ph / vh))
        \<and> 0 \<le> y0 \<and> normalRange (y0 + h0) \<and> normalRange ((y0 + h0) * (ph / vh))
        \<and> ph < power_int 2 1023"
  then show "\<exists>x sy y w h m.
          cropRectOf (DFin False pw, DFin False ph)
            \<lparr>cx = DFin False x0, cy = DFin False y0,
               cwidth = DFin False w0, cheight = DFin False h0\<rparr>
            (DFin False vw) (DFin False vh) =
            (DFin False x, DFin sy y, DFin False w, DFin False h)
        \<and> roundings 2 (x0 * (pw / vw)) x
        \<and> roundings 2 (w0 * (pw / vw)) w
        \<and> roundings 2 (h0 * (ph / vh)) h
        \<and> roundings 3 ((y0 + h0) * (ph / vh)) m
        \<and> \<bar>signed sy y - (ph - m)\<bar> \<le> \<bar>ph - m\<bar> / 2 ^ 53 + power_int 2 (- 1075)"
    by (intro cropRectOf_bounds) blast+
next
  assume "0 < fw \<and> 0 < fh \<and> representable fh
        \<and> normalRange (pw / fw) \<and> normalRange (ph / fh)
        \<and> normalRange pw \<and> normalRange ph"
  then show "\<exists>sy y w h.
          cropRectOf (DFin False pw, DFin False ph)
            \<lparr>cx = DFin False 0, cy = DFin False 0,
               cwidth = DFin False fw, cheight = DFin False fh\<rparr>
            (DFin False fw) (DFin False fh) =
            (DFin False 0, DFin sy y, DFin False w, DFin False h)
        \<and> roundings 2 pw w \<and> roundings 2 ph h
        \<and> \<bar>signed sy y\<bar> \<le> ph / 2 ^ 50"
    by (intro cropRectOf_full) blast+
next
  assume "0 < ew \<and> 0 < eh \<and> representable pw \<and> representable ph \<and> representable eh
        \<and> representable (pw / ew) \<and> representable (ph / eh)"
  then show "cropRectOf (DFin False pw, DFin False ph)
        \<lparr>cx = DFin False 0, cy = DFin False 0,
           cwidth = DFin False ew, cheight = DFin False eh\<rparr>
        (DFin False ew) (DFin False eh) =
        (DFin False 0, DFin False 0, DFin False pw, DFin False ph)"
    by (intro cropRectOf_exact) blast+
next
  assume a: "0 < pw \<and> 0 < ph \<and> representable pw \<and> representable ph"
  then have "pw / pw = 1" "ph / ph = 1" by simp_all
  then have "representable (pw / pw)" "representable (ph / ph)"
    by (simp_all only: representable_values)
  with a show "cropRectOf (DFin False pw, DFin False ph)
        \<lparr>cx = DFin False 0, cy = DFin False 0,
           cwidth = DFin False pw, cheight = DFin False ph\<rparr>
        (DFin False pw) (DFin False ph) =
        (DFin False 0, DFin False 0, DFin False pw, DFin False ph)"
    by (intro cropRectOf_exact) blast+
qed

theorem cropPage_mapping_witness:
  "cropPage (Pdf [samplePage 0, samplePage 1]) (Num 1)
      \<lparr>cx = DFin False 90, cy = DFin False 120,
         cwidth = DFin False 450, cheight = DFin False 300\<rparr>
      (DFin False 900) (DFin False 1200) =
     Inr (Pdf [samplePage 0, (samplePage 1)\<lparr>cropRect :=
       Some (cropRectOf (DFin False 600, DFin False 800)
          \<lparr>cx = DFin False 90, cy = DFin False 120,
             cwidth = DFin False 450, cheight = DFin False 300\<rparr>
          (DFin False 900) (DFin False 1200))\<rparr>])
   \<and> cropPage (Pdf [samplePage 0, samplePage 1]) (Num 2)
      \<lparr>cx = DFin False 90, cy = DFin False 120,
         cwidth = DFin False 450, cheight = DFin False 300\<rparr>
      (DFin False 900) (DFin False 1200) = Inl TypeError
   \<and> (\<exists>x sy y w h m.
        cropRectOf (DFin False 600, DFin False 800)
          \<lparr>cx = DFin False 90, cy = DFin False 120,
             cwidth = DFin False 450, cheight = DFin False 300\<rparr>
          (DFin False 900) (DFin False 1200) =
          (DFin False x, DFin sy y, DFin False w, DFin False h)
      \<and> roundings 2 60 x \<and> roundings 2 300 w \<and> roundings 2 200 h \<and> roundings 3 280 m
      \<and> \<bar>signed sy y - (800 - m)\<bar> \<le> \<bar>800 - m\<bar> / 2 ^ 53 + power_int 2 (- 1075))
   \<and> (\<exists>sy y w h.
        cropRectOf (DFin False 600, DFin False 800)
          \<lparr>cx = DFin False 0, cy = DFin False 0,
             cwidth = DFin False 900, cheight = DFin False 1200\<rparr>
          (DFin False 900) (DFin False 1200) =
          (DFin False 0, DFin sy y, DFin False w, DFin False h)
      \<and> roundings 2 600 w \<and> roundings 2 800 h \<and> \<bar>signed sy y\<bar> \<le> 800 / 2 ^ 50)
   \<and> cropRectOf (DFin False 600, DFin False 800)
        \<lparr>cx = DFin False 0, cy = DFin False 0,
           cwidth = DFin False 1200, cheight = DFin False 1600\<rparr>
        (DFin False 1200) (DFin False 1600) =
        (DFin False 0, DFin False 0, DFin False 600, DFin False 800)
   \<and> cropRectOf (DFin False 600, DFin False 800)
        \<lparr>cx = DFin False 0, cy = DFin False 0,
           cwidth = DFin False 600, cheight = DFin False 800\<rparr>
        (DFin False 600) (DFin False 800) =
        (DFin False 0, DFin False 0, DFin False 600, DFin False 800)"
proof (intro conjI)
  let ?ps = "[samplePage 0, samplePage 1]"
  let ?box = "\<lparr>cx = DFin False 90, cy = DFin False 120,
         cwidth = DFin False 450, cheight = DFin False 300\<rparr>"
  have a: "arrayIndex (length ?ps) (Num 1) = Some 1" by simp
  from cropPage_mapping [where ps = ?ps and pageIx = "Num 1" and k = 1 and box = ?box
      and previewW = "DFin False 900" and previewH = "DFin False 1200",
      THEN conjunct1, THEN mp, OF a]
  show "cropPage (Pdf ?ps) (Num 1) ?box (DFin False 900) (DFin False 1200) =
     Inr (Pdf [samplePage 0, (samplePage 1)\<lparr>cropRect :=
       Some (cropRectOf (DFin False 600, DFin False 800) ?box
          (DFin False 900) (DFin False 1200))\<rparr>])"
    by (simp add: samplePage_def)
next
  let ?ps = "[samplePage 0, samplePage 1]"
  let ?box = "\<lparr>cx = DFin False 90, cy = DFin False 120,
         cwidth = DFin False 450, cheight = DFin False 300\<rparr>"
  have a: "arrayIndex (length ?ps) (Num 2) = None" by simp
  from cropPage_mapping [where ps = ?ps and pageIx = "Num 2" and box = ?box
      and previewW = "DFin False 900" and previewH = "DFin False 1200",
      THEN conjunct2, THEN conjunct1, THEN mp, OF a]
  show "cropPage (Pdf ?ps) (Num 2) ?box (DFin False 900) (DFin False 1200) = Inl TypeError" .
next
  have h: "0 < (900::rat) \<and> 0 < (1200::rat) \<and> normalRange (600 / 900)
        \<and> normalRange (800 / 1200)
        \<and> ((90::rat) = 0 \<or> normalRange (90 * (600 / 900)))
        \<and> normalRange (450 * (600 / 900)) \<and> normalRange (300 * (800 / 1200))
        \<and> 0 \<le> (120::rat) \<and> normalRange (120 + 300)
        \<and> normalRange ((120 + 300) * (800 / 1200))
        \<and> (800::rat) < power_int 2 1023"
    by (simp add: normalRange_def)
  from cropPage_mapping [where vw = 900 and vh = 1200 and pw = 600 and ph = 800
      and ?x0.0 = 90 and ?y0.0 = 120 and ?w0.0 = 450 and ?h0.0 = 300,
      THEN conjunct2, THEN conjunct2, THEN conjunct1, THEN mp, OF h]
  show "\<exists>x sy y w h m.
        cropRectOf (DFin False 600, DFin False 800)
          \<lparr>cx = DFin False 90, cy = DFin False 120,
             cwidth = DFin False 450, cheight = DFin False 300\<rparr>
          (DFin False 900) (DFin False 1200) =
          (DFin False x, DFin sy y, DFin False w, DFin False h)
      \<and> roundings 2 60 x \<and> roundings 2 300 w \<and> roundings 2 200 h \<and> roundings 3 280 m
      \<and> \<bar>signed sy y - (800 - m)\<bar> \<le> \<bar>800 - m\<bar> / 2 ^ 53 + power_int 2 (- 1075)"
    by simp
next
  have h: "0 < (900::rat) \<and> 0 < (1200::rat) \<and> representable 1200
        \<and> normalRange (600 / 900) \<and> normalRange (800 / 1200)
        \<and> normalRange 600 \<and> normalRange 800"
    by (simp add: normalRange_def representable_1200)
  from cropPage_mapping [where fw = 900 and fh = 1200 and pw = 600 and ph = 800,
      THEN conjunct2, THEN conjunct2, THEN conjunct2, THEN conjunct1, THEN mp, OF h]
  show "\<exists>sy y w h.
        cropRectOf (DFin False 600, DFin False 800)
          \<lparr>cx = DFin False 0, cy = DFin False 0,
             cwidth = DFin False 900, cheight = DFin False 1200\<rparr>
          (DFin False 900) (DFin False 1200) =
          (DFin False 0, DFin sy y, DFin False w, DFin False h)
      \<and> roundings 2 600 w \<and> roundings 2 800 h \<and> \<bar>signed sy y\<bar> \<le> 800 / 2 ^ 50" .
next
  have h: "0 < (1200::rat) \<and> 0 < (1600::rat) \<and> representable 600 \<and> representable 800
        \<and> representable 1600 \<and> representable (600 / 1200) \<and> representable (800 / 1600)"
    by (simp add: representable_sample)
  from cropPage_mapping [where ew = 1200 and eh = 1600 and pw = 600 and ph = 800,
      THEN conjunct2, THEN conjunct2, THEN conjunct2, THEN conjunct2, THEN conjunct1,
      THEN mp, OF h]
  show "cropRectOf (DFin False 600, DFin False 800)
        \<lparr>cx = DFin False 0, cy = DFin False 0,
           cwidth = DFin False 1200, cheight = DFin False 1600\<rparr>
        (DFin False 1200) (DFin False 1600) =
        (DFin False 0, DFin False 0, DFin False 600, DFin False 800)" .
next
  have h: "0 < (600::rat) \<and> 0 < (800::rat) \<and> representable 600 \<and> representable 800"
    by (simp add: representable_sample)
  from cropPage_mapping [where pw = 600 and ph = 800,
      THEN conjunct2, THEN conjunct2, THEN conjunct2, THEN conjunct2, THEN conjunct2,
      THEN mp, OF h]
  show "cropRectOf (DFin False 600, DFin False 800)
        \<lparr>cx = DFin False 0, cy = DFin False 0,
           cwidth = DFin False 600, cheight = DFin False 800\<rparr>
        (DFin False 600) (DFin False 800) =
        (DFin False 0, DFin False 0, DFin False 600, DFin False 800)" .
qed

section \<open>The invariant of the page model\<close>

lemma elemAt_nth: "i < length xs \<Longrightarrow> elemAt xs i = Some (xs ! i)"
proof (induction xs arbitrary: i)
  case Nil
  then show ?case by simp
next
  case (Cons x xs)
  then show ?case by (cases i) simp_all
qed

lemma thumbnails_enumerate:
  assumes "length thumbs = length ps" and "\<And>i p. thumbnail (g (i, p)) = elemAt thumbs i"
  shows "map thumbnail (map g (enumerate 0 ps)) = map Some thumbs"
  using assms by (intro nth_equalityI) (simp_all add: nth_enumerate_eq elemAt_nth)

lemma length_withThumbnails: "length (withThumbnails thumbs ps) = length ps"
  by (simp add: withThumbnails_def)

lemma thumbnails_withThumbnails:
  "length thumbs = length ps \<Longrightarrow> map thumbnail (withThumbnails thumbs ps) = map Some thumbs"
  unfolding withThumbnails_def by (rule thumbnails_enumerate) simp_all

lemma length_initializePages: "length (initializePages n) = n"
  by (simp add: initializePages_def)

lemma activeDoc_member: "activeDoc st = Some active \<Longrightarrow> active \<in> set (documents st)"
  by (auto simp: activeDoc_def find_Some_iff split: option.splits)

lemma updateDoc_ids:
  "(\<And>d. docId (f d) = docId d) \<Longrightarrow> map docId (updateDoc a f docs) = map docId docs"
  by (simp add: updateDoc_def)

lemma updateDoc_all:
  assumes "distinct (map docId docs)" "active \<in> set docs" "\<forall>d \<in> set docs. P d" "P (f active)"
  shows "\<forall>d \<in> set (updateDoc (docId active) f docs). P d"
proof
  fix d' assume "d' \<in> set (updateDoc (docId active) f docs)"
  then obtain d where d: "d \<in> set docs"
    and d': "d' = (if docId d \<noteq> docId active then d else f d)"
    by (auto simp: updateDoc_def)
  show "P d'"
  proof (cases "docId d = docId active")
    case True
    from assms(1) have "inj_on docId (set docs)" by (simp add: distinct_map)
    with True d assms(2) have "d = active" by (auto dest: inj_onD)
    with True d' assms(4) show ?thesis by simp
  next
    case False
    with d d' assms(3) show ?thesis by simp
  qed
qed

lemma wellFormed_updateDoc:
  assumes "wellFormed rz st" "activeDoc st = Some active"
    and "\<And>d. docId (f d) = docId d" "inSync rz (f active)"
  shows "wellFormed rz (st\<lparr>documents := updateDoc (docId active) f (documents st)\<rparr>)"
proof -
  from assms(2) have m: "active \<in> set (documents st)" by (rule activeDoc_member)
  from assms(1) have d: "distinct (map docId (documents st))"
    and a: "\<forall>d \<in> set (documents st). inSync rz d"
    by (simp_all add: wellFormed_def)
  have "\<forall>d \<in> set (updateDoc (docId active) f (documents st)). inSync rz d"
    using d m a assms(4) by (rule updateDoc_all)
  then show ?thesis
    using d assms(3) by (simp add: wellFormed_def updateDoc_ids)
qed

lemma inSync_buffer:
  assumes "inSync rz d"
  obtains ps where "arrayBuffer d = Pdf ps" "length ps = pageCount d"
    "length (pages d) = pageCount d"
  using assms by (auto simp: inSync_def split: arrayBuffer.splits)

lemma wellFormed_active:
  assumes "wellFormed rz st" "activeDoc st = Some active"
  shows "inSync rz active"
  using assms activeDoc_member by (auto simp: wellFormed_def)

lemma inSyncI:
  assumes "arrayBuffer d = Pdf ps" "length ps = pageCount d" "length (pages d) = pageCount d"
    and "map thumbnail (pages d) = map Some (map (rz 0.3) ps)"
  shows "inSync rz d"
  using assms by (simp add: inSync_def comp_def)

lemma generateThumbnails_Pdf: "generateThumbnails rz (Pdf ps) s = Inr (map (rz s) ps)"
  by simp

lemma wellFormed_handleRotate:
  assumes "wellFormed rz st"
  shows "wellFormed rz (handleRotate rz st degrees)"
proof (cases "activeDoc st")
  case None
  then show ?thesis using assms by (simp add: handleRotate_def)
next
  case (Some active)
  then have "inSync rz active" using assms wellFormed_active by blast
  then obtain ps where ps: "arrayBuffer active = Pdf ps" "length ps = pageCount active"
    "length (pages active) = pageCount active"
    by (rule inSync_buffer)
  define idxs where "idxs = selectedIndices (docId active) (selectedPages st)"
  show ?thesis
  proof (cases "rotateEach degrees ps idxs")
    case (Inl e)
    then show ?thesis
      using assms Some ps by (simp add: handleRotate_def rotatePages_def Let_def idxs_def)
  next
    case (Inr ps')
    define thumbs where "thumbs = map (rz 0.3) ps'"
    define g where "g = (\<lambda>(i, page :: PDFPageData). page\<lparr>thumbnail := elemAt thumbs i,
        rotation := (if Num (int i) \<in> set idxs then rotation page + degrees else rotation page)\<rparr>)"
    define f where "f = (\<lambda>doc :: PDFDocument.
        doc\<lparr>arrayBuffer := Pdf ps', pages := map g (enumerate 0 (pages doc))\<rparr>)"
    from Inr have len: "length ps' = length ps" by (rule length_rotateEach)
    have "map thumbnail (map g (enumerate 0 (pages active))) = map Some thumbs"
      by (rule thumbnails_enumerate) (simp_all add: thumbs_def len ps g_def)
    then have "inSync rz (f active)"
      using len ps by (intro inSyncI [where ps = ps']) (simp_all add: f_def thumbs_def)
    moreover have "docId (f d) = docId d" for d by (simp add: f_def)
    ultimately have "wellFormed rz (st\<lparr>documents := updateDoc (docId active) f (documents st)\<rparr>)"
      using assms Some by (intro wellFormed_updateDoc)
    moreover have "handleRotate rz st degrees =
        (if selectedPages st = [] then st
         else st\<lparr>documents := updateDoc (docId active) f (documents st)\<rparr>)"
      using Some ps Inr [unfolded idxs_def]
      by (simp add: handleRotate_def rotatePages_def save_def Let_def f_def g_def thumbs_def
          idxs_def)
    ultimately show ?thesis using assms by simp
  qed
qed

lemma wellFormed_documents:
  "documents st' = documents st \<Longrightarrow> wellFormed rz st' = wellFormed rz st"
  by (simp add: wellFormed_def)

lemma wellFormed_handleDeletePages:
  assumes "wellFormed rz st"
  shows "wellFormed rz (handleDeletePages rz st)"
proof (cases "activeDoc st")
  case None
  then show ?thesis using assms by (simp add: handleDeletePages_def)
next
  case (Some active)
  then have "inSync rz active" using assms wellFormed_active by blast
  then obtain ps where ps: "arrayBuffer active = Pdf ps" "length ps = pageCount active"
    "length (pages active) = pageCount active"
    by (rule inSync_buffer)
  define del where "del = selectedIndices (docId active) (selectedPages st)"
  define remaining where
    "remaining = filter (\<lambda>i. Num (int i) \<notin> set del) [0..<length (pages active)]"
  define ps' where "ps' = map (\<lambda>k. ps ! k) remaining"
  define newPages where
    "newPages = withThumbnails (map (rz 0.3) ps') (initializePages (length remaining))"
  define f where "f = (\<lambda>doc :: PDFDocument.
      doc\<lparr>arrayBuffer := Pdf ps', pageCount := length remaining, pages := newPages\<rparr>)"
  have "\<forall>k \<in> set remaining. k < length ps"
    using ps by (simp add: remaining_def)
  then have ex: "extractPages (Pdf ps) (map (\<lambda>i. Num (int i)) remaining) = Inr (Pdf ps')"
    unfolding ps'_def by (rule extractPages_positions)
  have "map thumbnail newPages = map Some (map (rz 0.3) ps')"
    unfolding newPages_def
    by (rule thumbnails_withThumbnails) (simp add: ps'_def length_initializePages)
  then have "inSync rz (f active)"
    by (intro inSyncI [where ps = ps'])
       (simp_all add: f_def ps'_def newPages_def length_withThumbnails length_initializePages)
  moreover have "docId (f d) = docId d" for d by (simp add: f_def)
  ultimately have "wellFormed rz (st\<lparr>documents := updateDoc (docId active) f (documents st)\<rparr>)"
    using assms Some by (intro wellFormed_updateDoc)
  then have "wellFormed rz (st\<lparr>documents := updateDoc (docId active) f (documents st),
      selectedPages := []\<rparr>)"
    by (simp add: wellFormed_def)
  moreover have "handleDeletePages rz st =
      (if selectedPages st = [] \<or> length del = pageCount active then st
       else st\<lparr>documents := updateDoc (docId active) f (documents st), selectedPages := []\<rparr>)"
    using Some ps ex [unfolded remaining_def]
    by (simp add: handleDeletePages_def Let_def f_def newPages_def remaining_def del_def)
  ultimately show ?thesis using assms by simp
qed

lemma elemAt_None: "length xs \<le> i \<Longrightarrow> elemAt xs i = None"
proof (induction xs arbitrary: i)
  case Nil
  then show ?case by simp
next
  case (Cons x xs)
  then show ?case by (cases i) simp_all
qed

lemma length_insert_at: "length (take j xs @ [x] @ drop j xs) = Suc (length xs)"
  by simp

lemma length_remove_at: "k < length xs \<Longrightarrow> Suc (length (take k xs @ drop (Suc k) xs)) = length xs"
  by simp

lemma length_movePermutation:
  assumes "\<forall>i \<in> set (movePermutation n a b). arrayIndex m i \<noteq> None"
  shows "length (movePermutation n a b) = n"
proof -
  define newOrder where "newOrder = map (\<lambda>i. Num (int i)) [0..<n]"
  define k where "k = spliceStart a (length newOrder)"
  define removed where "removed = (case elemAt newOrder k of None \<Rightarrow> NaN | Some r \<Rightarrow> r)"
  define rest where "rest = take k newOrder @ drop (Suc k) newOrder"
  define j where "j = spliceStart b (length rest)"
  have mp: "movePermutation n a b = take j rest @ [removed] @ drop j rest"
    by (simp add: movePermutation_def Let_def newOrder_def k_def removed_def rest_def j_def)
  show ?thesis
  proof (cases "k < length newOrder")
    case True
    then have "Suc (length rest) = length newOrder"
      unfolding rest_def by (rule length_remove_at)
    then show ?thesis
      unfolding mp length_insert_at by (simp add: newOrder_def)
  next
    case False
    then have "elemAt newOrder k = None"
      by (intro elemAt_None) simp
    then have "NaN \<in> set (movePermutation n a b)"
      unfolding mp by (simp add: removed_def)
    with assms show ?thesis by fastforce
  qed
qed

lemma wellFormed_handleMovePage:
  assumes "wellFormed rz st"
  shows "wellFormed rz (handleMovePage rz st fromIndex toIndex)"
proof (cases "activeDoc st")
  case None
  then show ?thesis using assms by (simp add: handleMovePage_def)
next
  case (Some active)
  then have "inSync rz active" using assms wellFormed_active by blast
  then obtain ps where ps: "arrayBuffer active = Pdf ps" "length ps = pageCount active"
    "length (pages active) = pageCount active"
    by (rule inSync_buffer)
  define newOrder where "newOrder = movePermutation (length (pages active)) fromIndex toIndex"
  show ?thesis
  proof (cases "\<forall>i \<in> set newOrder. arrayIndex (length ps) i \<noteq> None")
    case False
    then have "reorderPages (Pdf ps) newOrder = Inl TypeError"
      by (simp add: reorderPages_extractPages extractPages_eq)
    then show ?thesis
      using assms Some ps by (simp add: handleMovePage_def Let_def newOrder_def)
  next
    case True
    define ps' where "ps' = map (\<lambda>i. ps ! the (arrayIndex (length ps) i)) newOrder"
    define newPages where
      "newPages = withThumbnails (map (rz 0.3) ps') (initializePages (pageCount active))"
    define f where "f = (\<lambda>doc :: PDFDocument. doc\<lparr>arrayBuffer := Pdf ps', pages := newPages\<rparr>)"
    from True have re: "reorderPages (Pdf ps) newOrder = Inr (Pdf ps')"
      by (simp add: reorderPages_extractPages extractPages_eq ps'_def)
    from True have len: "length ps' = pageCount active"
      unfolding ps'_def newOrder_def using ps by (simp add: length_movePermutation)
    have "map thumbnail newPages = map Some (map (rz 0.3) ps')"
      unfolding newPages_def
      by (rule thumbnails_withThumbnails) (simp add: len length_initializePages)
    then have "inSync rz (f active)"
      using len
      by (intro inSyncI [where ps = ps'])
         (simp_all add: f_def newPages_def length_withThumbnails length_initializePages)
    moreover have "docId (f d) = docId d" for d by (simp add: f_def)
    ultimately have "wellFormed rz (st\<lparr>documents := updateDoc (docId active) f (documents st)\<rparr>)"
      using assms Some by (intro wellFormed_updateDoc)
    moreover have "handleMovePage rz st fromIndex toIndex =
        (if fromIndex = toIndex then st
         else st\<lparr>documents := updateDoc (docId active) f (documents st)\<rparr>)"
      using Some ps re [unfolded newOrder_def]
      by (simp add: handleMovePage_def Let_def f_def newPages_def)
    ultimately show ?thesis using assms by simp
  qed
qed

lemma cropPage_Pdf:
  "cropPage (Pdf ps) i box w h = Inl TypeError \<or>
   (\<exists>ps'. cropPage (Pdf ps) i box w h = Inr (Pdf ps') \<and> length ps' = length ps)"
  by (simp add: cropPage_def save_def Let_def split: option.splits)

lemma addTextToPage_Pdf:
  "addTextToPage (Pdf ps) i annotations = Inl TypeError \<or>
   (\<exists>ps'. addTextToPage (Pdf ps) i annotations = Inr (Pdf ps') \<and> length ps' = length ps)"
  by (simp add: addTextToPage_def save_def Let_def split: option.splits)

lemma wellFormed_applyCrop:
  assumes "wellFormed rz st"
  shows "wellFormed rz (applyCrop rz st)"
proof (cases "activeDoc st")
  case None
  then show ?thesis using assms by (simp add: applyCrop_def)
next
  case (Some active)
  then have "inSync rz active" using assms wellFormed_active by blast
  then obtain ps where ps: "arrayBuffer active = Pdf ps" "length ps = pageCount active"
    "length (pages active) = pageCount active"
    by (rule inSync_buffer)
  show ?thesis
  proof (cases "activePageIndex st")
    case None
    then show ?thesis using assms Some by (simp add: applyCrop_def)
  next
    case pageIx: (Some pageIx)
    show ?thesis
    proof (cases "cropBoxState st")
      case None
      then show ?thesis using assms Some pageIx by (simp add: applyCrop_def)
    next
      case box: (Some box)
      define res where "res = cropPage (Pdf ps) (Num (int pageIx)) box
          (fst (pageSize st)) (snd (pageSize st))"
      from cropPage_Pdf [of ps "Num (int pageIx)" box "fst (pageSize st)" "snd (pageSize st)"]
      consider "res = Inl TypeError" | ps' where "res = Inr (Pdf ps')" "length ps' = length ps"
        unfolding res_def by blast
      then show ?thesis
      proof cases
        case 1
        then show ?thesis
          using assms Some pageIx box ps by (simp add: applyCrop_def res_def)
      next
        case 2
        define f where "f = (\<lambda>doc :: PDFDocument.
            doc\<lparr>arrayBuffer := Pdf ps', pages := withThumbnails (map (rz 0.3) ps') (pages doc)\<rparr>)"
        have "map thumbnail (withThumbnails (map (rz 0.3) ps') (pages active)) =
            map Some (map (rz 0.3) ps')"
          by (rule thumbnails_withThumbnails) (simp add: 2 ps)
        then have "inSync rz (f active)"
          using 2 ps
          by (intro inSyncI [where ps = ps']) (simp_all add: f_def length_withThumbnails)
        moreover have "docId (f d) = docId d" for d by (simp add: f_def)
        ultimately have "wellFormed rz
            (st\<lparr>documents := updateDoc (docId active) f (documents st)\<rparr>)"
          using assms Some by (intro wellFormed_updateDoc)
        then have "wellFormed rz
            (st\<lparr>documents := updateDoc (docId active) f (documents st), cropBoxState := None\<rparr>)"
          by (simp add: wellFormed_def)
        moreover have "applyCrop rz st =
            st\<lparr>documents := updateDoc (docId active) f (documents st), cropBoxState := None\<rparr>"
          using Some pageIx box ps 2(1) by (simp add: applyCrop_def res_def f_def)
        ultimately show ?thesis by simp
      qed
    qed
  qed
qed

lemma wellFormed_saveAnnotations:
  assumes "wellFormed rz st"
  shows "wellFormed rz (saveAnnotations rz st)"
proof (cases "activeDoc st")
  case None
  then show ?thesis using assms by (simp add: saveAnnotations_def)
next
  case (Some active)
  then have "inSync rz active" using assms wellFormed_active by blast
  then obtain ps where ps: "arrayBuffer active = Pdf ps" "length ps = pageCount active"
    "length (pages active) = pageCount active"
    by (rule inSync_buffer)
  show ?thesis
  proof (cases "activePageIndex st")
    case None
    then show ?thesis using assms Some by (simp add: saveAnnotations_def)
  next
    case pageIx: (Some pageIx)
    define res where "res = addTextToPage (Pdf ps) (Num (int pageIx)) (currentAnnotations st)"
    from addTextToPage_Pdf [of ps "Num (int pageIx)" "currentAnnotations st"]
    consider "res = Inl TypeError" | ps' where "res = Inr (Pdf ps')" "length ps' = length ps"
      unfolding res_def by blast
    then show ?thesis
    proof cases
      case 1
      then show ?thesis
        using assms Some pageIx ps by (simp add: saveAnnotations_def res_def)
    next
      case 2
      define thumbs where "thumbs = map (rz 0.3) ps'"
      define g where "g = (\<lambda>(i, page :: PDFPageData). page\<lparr>thumbnail := elemAt thumbs i,
          textAnnotations := (if i = pageIx then [] else textAnnotations page)\<rparr>)"
      define f where "f = (\<lambda>doc :: PDFDocument.
          doc\<lparr>arrayBuffer := Pdf ps', pages := map g (enumerate 0 (pages doc))\<rparr>)"
      have "map thumbnail (map g (enumerate 0 (pages active))) = map Some thumbs"
        by (rule thumbnails_enumerate) (simp_all add: thumbs_def 2 ps g_def)
      then have "inSync rz (f active)"
        using 2 ps by (intro inSyncI [where ps = ps']) (simp_all add: f_def thumbs_def)
      moreover have "docId (f d) = docId d" for d by (simp add: f_def)
      ultimately have "wellFormed rz
          (st\<lparr>documents := updateDoc (docId active) f (documents st)\<rparr>)"
        using assms Some by (intro wellFormed_updateDoc)
      then have "wellFormed rz
          (st\<lparr>documents := updateDoc (docId active) f (documents st), currentAnnotations := []\<rparr>)"
        by (simp add: wellFormed_def)
      moreover have "saveAnnotations rz st =
          (if currentAnnotations st = [] then st
           else st\<lparr>documents := updateDoc (docId active) f (documents st),
                   currentAnnotations := []\<rparr>)"
        using Some pageIx ps 2(1)
        by (simp add: saveAnnotations_def res_def f_def g_def thumbs_def)
      ultimately show ?thesis using assms by simp
    qed
  qed
qed

lemma loadFiles_docs:
  "loadFiles rz files = Inr newDocs \<Longrightarrow>
   map docId newDocs = map uuid (filter (\<lambda>f. ftype f = ''application/pdf'') files)
   \<and> (\<forall>d \<in> set newDocs. inSync rz d)"
proof (induction files arbitrary: newDocs)
  case Nil
  then show ?case by simp
next
  case (Cons fl files)
  show ?case
  proof (cases "ftype fl = ''application/pdf''")
    case False
    then show ?thesis using Cons by simp
  next
    case True
    from Cons.prems True obtain ps rest where c: "contents fl = Pdf ps"
      and r: "loadFiles rz files = Inr rest"
      and n: "newDocs =
        \<lparr>docId = uuid fl, name = replace ''.pdf'' [] (fname fl),
         arrayBuffer = contents fl, pageCount = length ps,
         pages = withThumbnails (map (rz 0.3) ps) (initializePages (length ps))\<rparr> # rest"
      by (cases "contents fl"; cases "loadFiles rz files") auto
    have "map thumbnail (withThumbnails (map (rz 0.3) ps) (initializePages (length ps))) =
        map Some (map (rz 0.3) ps)"
      by (rule thumbnails_withThumbnails) (simp add: length_initializePages)
    then have "inSync rz (hd newDocs)"
      by (intro inSyncI [where ps = ps])
         (simp_all add: n c length_withThumbnails length_initializePages)
    then show ?thesis
      using Cons.IH [OF r] True by (simp add: n)
  qed
qed

lemma wellFormed_handleFileUpload:
  assumes "wellFormed rz st" "admitted st (FileUpload files)"
  shows "wellFormed rz (handleFileUpload rz st files)"
proof (cases "loadFiles rz files")
  case (Inl e)
  then show ?thesis using assms(1) by (simp add: handleFileUpload_def)
next
  case (Inr newDocs)
  then have ids: "map docId newDocs = map uuid (filter (\<lambda>f. ftype f = ''application/pdf'') files)"
    and sync: "\<forall>d \<in> set newDocs. inSync rz d"
    using loadFiles_docs by blast+
  from assms(2) have "distinct (map uuid files)"
    and fresh: "\<forall>f \<in> set files. uuid f \<notin> set (map docId (documents st))"
    by simp_all
  then have "distinct (map docId newDocs)"
    unfolding ids by (simp add: distinct_map_filter)
  moreover have "set (map docId (documents st)) \<inter> set (map docId newDocs) = {}"
    unfolding ids using fresh by force
  ultimately have "distinct (map docId (documents st @ newDocs))"
    using assms(1) by (simp add: wellFormed_def)
  moreover have "\<forall>d \<in> set (documents st @ newDocs). inSync rz d"
    using assms(1) sync by (auto simp: wellFormed_def)
  ultimately show ?thesis
    using assms(1) Inr by (simp add: handleFileUpload_def wellFormed_def)
qed

lemma wellFormed_deleteDocument:
  "wellFormed rz st \<Longrightarrow> wellFormed rz (deleteDocument st d)"
  by (simp add: wellFormed_def deleteDocument_def distinct_map_filter)

lemma wellFormed_step:
  assumes "wellFormed rz st" "admitted st ev"
  shows "wellFormed rz (step rz st ev)"
proof (cases ev)
  case (FileUpload files)
  then show ?thesis using assms by (simp add: wellFormed_handleFileUpload)
next
  case (TogglePage d i)
  then show ?thesis
    using assms(1) by (simp add: togglePageSelection_def Let_def wellFormed_def)
next
  case SelectAll
  then show ?thesis
    using assms(1) by (simp add: selectAllPages_def wellFormed_def split: option.splits)
next
  case ClearSelection
  then show ?thesis using assms(1) by (simp add: clearSelection_def wellFormed_def)
next
  case (Rotate degrees)
  then show ?thesis using assms(1) by (simp add: wellFormed_handleRotate)
next
  case DeletePages
  then show ?thesis using assms(1) by (simp add: wellFormed_handleDeletePages)
next
  case (MovePage a b)
  then show ?thesis using assms(1) by (simp add: wellFormed_handleMovePage)
next
  case ApplyCrop
  then show ?thesis using assms(1) by (simp add: wellFormed_applyCrop)
next
  case SaveAnnotations
  then show ?thesis using assms(1) by (simp add: wellFormed_saveAnnotations)
next
  case (DeleteDocument d)
  then show ?thesis using assms(1) by (simp add: wellFormed_deleteDocument)
next
  case (Ui f)
  then show ?thesis using assms(1) by (simp add: wellFormed_def)
qed

lemma wellFormed_run:
  "run rz st evs = Some st' \<Longrightarrow> wellFormed rz st \<Longrightarrow> wellFormed rz st'"
proof (induction evs arbitrary: st)
  case Nil
  then show ?case by simp
next
  case (Cons ev evs)
  from Cons.prems(1) have a: "admitted st ev" and r: "run rz (step rz st ev) evs = Some st'"
    by (simp_all split: if_splits)
  from Cons.prems(2) a have "wellFormed rz (step rz st ev)" by (rule wellFormed_step)
  with r show ?case by (rule Cons.IH)
qed

lemma wellFormed_initialApp: "wellFormed rz initialApp"
  by (simp add: wellFormed_def initialApp_def)

text \<open>
  C7. In every state that a run of the editor reaches, every document has as many entries
  in its page array as its \<open>pageCount\<close> says, and the page array belongs to the byte
  buffer: the buffer has \<open>pageCount\<close> pages and the thumbnails are the images of its
  pages. Each of the six mutations (upload, rotate, delete, move, crop, burning
  annotations in) keeps this: it either leaves the documents as they are or installs a
  new buffer together with the page array made for it.
\<close>

theorem documents_stay_in_sync:
  "(run rz initialApp events = Some st \<longrightarrow>
      (\<forall>d \<in> set (documents st).
         length (pages d) = pageCount d \<and> inSync rz d
         \<and> getPageCount (arrayBuffer d) = Inr (pageCount d)))
   \<and> (wellFormed rz st0 \<longrightarrow>
        wellFormed rz (handleRotate rz st0 degrees)
      \<and> wellFormed rz (handleDeletePages rz st0)
      \<and> wellFormed rz (handleMovePage rz st0 fromIndex toIndex)
      \<and> wellFormed rz (applyCrop rz st0)
      \<and> wellFormed rz (saveAnnotations rz st0)
      \<and> (admitted st0 (FileUpload files) \<longrightarrow> wellFormed rz (handleFileUpload rz st0 files)))"
proof (intro conjI impI ballI)
  fix d assume r: "run rz initialApp events = Some st" and d: "d \<in> set (documents st)"
  from r have "wellFormed rz st"
    using wellFormed_initialApp by (rule wellFormed_run)
  with d show s: "inSync rz d" by (simp add: wellFormed_def)
  then show "length (pages d) = pageCount d" by (simp add: inSync_def)
  from s show "getPageCount (arrayBuffer d) = Inr (pageCount d)"
    by (auto simp: inSync_def split: arrayBuffer.splits)
next
  assume w: "wellFormed rz st0"
  then show "wellFormed rz (handleRotate rz st0 degrees)" by (rule wellFormed_handleRotate)
  from w show "wellFormed rz (handleDeletePages rz st0)" by (rule wellFormed_handleDeletePages)
  from w show "wellFormed rz (handleMovePage rz st0 fromIndex toIndex)"
    by (rule wellFormed_handleMovePage)
  from w show "wellFormed rz (applyCrop rz st0)" by (rule wellFormed_applyCrop)
  from w show "wellFormed rz (saveAnnotations rz st0)" by (rule wellFormed_saveAnnotations)
  show "wellFormed rz (handleFileUpload rz st0 files)" if "admitted st0 (FileUpload files)"
    using w that by (rule wellFormed_handleFileUpload)
qed

theorem documents_stay_in_sync_witness:
  "run sampleRz initialApp [FileUpload [sampleFile ''a'' 3], TogglePage ''a'' 1, DeletePages] =
     Some (handleDeletePages sampleRz (togglePageSelection (uploaded ''a'' 3) ''a'' 1))
   \<and> map pageCount
        (documents (handleDeletePages sampleRz (togglePageSelection (uploaded ''a'' 3) ''a'' 1))) = [2]
   \<and> length (pages (hd (documents
        (handleDeletePages sampleRz (togglePageSelection (uploaded ''a'' 3) ''a'' 1))))) = 2
   \<and> getPageCount (arrayBuffer (hd (documents
        (handleDeletePages sampleRz (togglePageSelection (uploaded ''a'' 3) ''a'' 1))))) = Inr 2
   \<and> wellFormed sampleRz (uploaded ''a'' 3)
   \<and> wellFormed sampleRz (handleMovePage sampleRz (uploaded ''a'' 3) 0 1)"
proof -
  let ?st = "handleDeletePages sampleRz (togglePageSelection (uploaded ''a'' 3) ''a'' 1)"
  have a: "admitted initialApp (FileUpload [sampleFile ''a'' 3])"
    by (simp add: initialApp_def)
  have r: "run sampleRz initialApp [FileUpload [sampleFile ''a'' 3], TogglePage ''a'' 1, DeletePages] =
      Some ?st"
    using a by (simp add: uploaded_def)
  have c: "map pageCount (documents ?st) = [2]"
    by code_simp
  then have m: "hd (documents ?st) \<in> set (documents ?st)"
    by (cases "documents ?st") simp_all
  from c have p: "pageCount (hd (documents ?st)) = 2"
    by (cases "documents ?st") simp_all
  have "\<forall>d \<in> set (documents ?st).
      length (pages d) = pageCount d \<and> inSync sampleRz d
      \<and> getPageCount (arrayBuffer d) = Inr (pageCount d)"
    using documents_stay_in_sync [where rz = sampleRz and st = ?st
        and events = "[FileUpload [sampleFile ''a'' 3], TogglePage ''a'' 1, DeletePages]"] r
    by blast
  then have "length (pages (hd (documents ?st))) = pageCount (hd (documents ?st))
      \<and> getPageCount (arrayBuffer (hd (documents ?st))) = Inr (pageCount (hd (documents ?st)))"
    using m by blast
  then have "length (pages (hd (documents ?st))) = 2
      \<and> getPageCount (arrayBuffer (hd (documents ?st))) = Inr 2"
    by (simp only: p)
  moreover
  have u: "wellFormed sampleRz (uploaded ''a'' 3)"
    using documents_stay_in_sync [where rz = sampleRz and ?st0.0 = initialApp
        and files = "[sampleFile ''a'' 3]"] wellFormed_initialApp [of sampleRz] a
    unfolding uploaded_def by blast
  moreover
  have "wellFormed sampleRz (handleMovePage sampleRz (uploaded ''a'' 3) 0 1)"
    using documents_stay_in_sync [where rz = sampleRz and ?st0.0 = "uploaded ''a'' 3"
        and fromIndex = 0 and toIndex = 1] u
    by blast
  ultimately show ?thesis using r c by blast
qed

section \<open>The selection keys of documents with generated identifiers\<close>

lemma selectedIndices_hyphenated:
  assumes "CHR ''-'' \<notin> set a" "CHR ''-'' \<notin> set b"
  shows "selectedIndices (a @ ''-'' @ b @ ''-'' @ c) [selectionKey (a @ ''-'' @ b @ ''-'' @ c) i] =
         [parseInt b 10]"
  using assms by (simp add: selectedIndices_def selectionKey_def split_first)

lemma handleRotate_plain_id:
  "map rotation (pages (hd (documents (handleRotate sampleRz (selected24 ''doc1'' 10) 90)))) =
     [0, 0, 90, 0, 90, 0, 0, 0, 0, 0]"
  by code_simp

lemma handleDeletePages_plain_id:
  "map pageCount (documents (handleDeletePages sampleRz (selected24 ''doc1'' 10))) = [8]"
  by code_simp

text \<open>
  C1, on the code. The identifier of a document is the value of \<open>crypto.randomUUID()\<close>,
  which has hyphens, and the selection filter reads the segment after the first hyphen of
  the key: a piece of the identifier, not the page index. For a document of 10 pages with
  the sample identifier and pages 2 and 4 selected, the filter gives \<open>NaN, NaN\<close>, and
  \<open>handleRotate\<close> by 90 degrees leaves the rotation of every page at 0 and the buffer with
  unrotated pages; the page count stays 10.
\<close>

theorem handleRotate_generated_id:
  "selectedPages (selected24 sampleUuid 10) = [sampleUuid @ ''-2'', sampleUuid @ ''-4'']
   \<and> selectedIndices sampleUuid (selectedPages (selected24 sampleUuid 10)) = [NaN, NaN]
   \<and> map rotation (pages (hd (documents (handleRotate sampleRz (selected24 sampleUuid 10) 90)))) =
       [0, 0, 0, 0, 0, 0, 0, 0, 0, 0]
   \<and> arrayBuffer (hd (documents (handleRotate sampleRz (selected24 sampleUuid 10) 90))) =
       sampleBuffer 10
   \<and> map pageCount (documents (handleRotate sampleRz (selected24 sampleUuid 10) 90)) = [10]"
proof (intro conjI)
  show "selectedPages (selected24 sampleUuid 10) = [sampleUuid @ ''-2'', sampleUuid @ ''-4'']"
    by code_simp
  show "selectedIndices sampleUuid (selectedPages (selected24 sampleUuid 10)) = [NaN, NaN]"
    by code_simp
  show "map rotation (pages (hd (documents (handleRotate sampleRz (selected24 sampleUuid 10) 90)))) =
       [0, 0, 0, 0, 0, 0, 0, 0, 0, 0]"
    by code_simp
  show "arrayBuffer (hd (documents (handleRotate sampleRz (selected24 sampleUuid 10) 90))) =
       sampleBuffer 10"
    by code_simp
  show "map pageCount (documents (handleRotate sampleRz (selected24 sampleUuid 10) 90)) = [10]"
    by code_simp
qed

text \<open>
  C2, on the code. With the same document and selection, \<open>handleDeletePages\<close> removes no
  page: the indices to delete are \<open>NaN, NaN\<close>, every position remains, and the document
  keeps 10 pages where the claim says 8. The rejection of a selection of all pages
  compares the number of selected keys with \<open>pageCount\<close> and does hold here: with all 10
  pages selected the state is unchanged.
\<close>

theorem handleDeletePages_generated_id:
  "map pageCount (documents (handleDeletePages sampleRz (selected24 sampleUuid 10))) = [10]
   \<and> length (pages (hd (documents (handleDeletePages sampleRz (selected24 sampleUuid 10))))) = 10
   \<and> arrayBuffer (hd (documents (handleDeletePages sampleRz (selected24 sampleUuid 10)))) =
       sampleBuffer 10
   \<and> selectedPages (handleDeletePages sampleRz (selected24 sampleUuid 10)) = []
   \<and> handleDeletePages sampleRz (selectAllPages (uploaded sampleUuid 10)) =
       selectAllPages (uploaded sampleUuid 10)"
proof (intro conjI)
  show "map pageCount (documents (handleDeletePages sampleRz (selected24 sampleUuid 10))) = [10]"
    by code_simp
  show "length (pages (hd (documents (handleDeletePages sampleRz (selected24 sampleUuid 10))))) = 10"
    by code_simp
  show "arrayBuffer (hd (documents (handleDeletePages sampleRz (selected24 sampleUuid 10)))) =
       sampleBuffer 10"
    by code_simp
  show "selectedPages (handleDeletePages sampleRz (selected24 sampleUuid 10)) = []"
    by code_simp
  show "handleDeletePages sampleRz (selectAllPages (uploaded sampleUuid 10)) =
       selectAllPages (uploaded sampleUuid 10)"
    by code_simp
qed

lemma digitVal_digit: "d < 10 \<Longrightarrow> digitVal (char_of (48 + d)) = Some d"
  by (simp add: digitVal_def Let_def)

lemma digitsValue_snoc:
  "digitsValue R (Z @ [c]) = digitsValue R Z * R + (case digitVal c of None \<Rightarrow> 0 | Some v \<Rightarrow> v)"
  by (simp add: digitsValue_def)

lemma showNat_digits:
  "showNat n \<noteq> [] \<and> (\<forall>c \<in> set (showNat n). isRadixDigit 10 c) \<and> digitsValue 10 (showNat n) = n"
proof (induction n rule: showNat.induct)
  case (1 n)
  show ?case
  proof (cases "n < 10")
    case True
    then show ?thesis
      by (subst (1 2 3) showNat.simps) (simp add: isRadixDigit_def digitVal_digit digitsValue_def)
  next
    case False
    then have "n mod 10 < 10" by simp
    with False 1 show ?thesis
      by (subst (1 2 3) showNat.simps)
         (simp add: isRadixDigit_def digitVal_digit digitsValue_snoc)
  qed
qed

lemma parseInt_showNat: "parseInt (showNat n) 10 = Num (int n)"
  using parseInt_digits_append [of "showNat n" "[]"] showNat_digits [of n] by simp

lemma showNat_no_hyphen: "CHR ''-'' \<notin> set (showNat n)"
  using showNat_digits [of n] digit_not_space_or_sign by blast

lemma selectedIndices_plain_id:
  assumes "CHR ''-'' \<notin> set d"
  shows "selectedIndices d (map (selectionKey d) ks) = map (\<lambda>k. Num (int k)) ks"
  using assms
  by (induction ks)
     (simp_all add: selectedIndices_def selectionKey_def split_first split_no_sep
        showNat_no_hyphen parseInt_showNat)

lemma find_updateDoc:
  assumes "\<And>d. docId (f d) = docId d"
  shows "find (\<lambda>d. docId d = a) (updateDoc a f docs) = map_option f (find (\<lambda>d. docId d = a) docs)"
  using assms by (induction docs) (simp_all add: updateDoc_def)

lemma count_list_positions:
  "distinct ks \<Longrightarrow>
   count_list (map (\<lambda>k. Num (int k)) ks) (Num (int i)) = (if i \<in> set ks then 1 else 0)"
  by (induction ks) auto

lemma length_filter_not_in:
  assumes "distinct ks" "\<forall>k \<in> set ks. k < n"
  shows "length (filter (\<lambda>i. i \<notin> set ks) [0..<n]) = n - length ks"
proof -
  have "length (filter (\<lambda>i. i \<notin> set ks) [0..<n]) = card (set (filter (\<lambda>i. i \<notin> set ks) [0..<n]))"
    by (rule distinct_card [symmetric]) simp
  also have "set (filter (\<lambda>i. i \<notin> set ks) [0..<n]) = {0..<n} - set ks"
    by auto
  also have "card ({0..<n} - set ks) = card {0..<n} - card (set ks)"
    using assms(2) by (intro card_Diff_subset) auto
  also have "\<dots> = n - length ks"
    using assms(1) by (simp add: distinct_card)
  finally show ?thesis .
qed

text \<open>
  With an identifier that has no hyphen the handlers do what the rotation scenario and
  the deletion property of the specification say. For a
  well-formed state whose active document has such an identifier and whose selection is
  the keys of the distinct pages \<open>ks\<close> of this document: \<open>handleRotate\<close>, for a multiple of
  90 and pages at multiples of 90, adds \<open>degrees\<close> to
  the rotation of exactly the pages \<open>ks\<close>, in the page model and in the buffer, and keeps
  \<open>pageCount\<close>; \<open>handleDeletePages\<close>, when \<open>ks\<close> is not all pages, leaves \<open>pageCount\<close> minus
  the number of selected pages, and the buffer keeps the pages that are not selected in
  their order.
\<close>

lemma handleRotate_plain:
  assumes "wellFormed rz st" "activeDoc st = Some active" "CHR ''-'' \<notin> set (docId active)"
    and "selectedPages st = map (selectionKey (docId active)) ks" "ks \<noteq> []" "distinct ks"
    and "arrayBuffer active = Pdf ps" "90 dvd degrees" "\<forall>p \<in> set ps. 90 dvd angle p"
  shows "\<exists>doc'. activeDoc (handleRotate rz st degrees) = Some doc'
     \<and> pageCount doc' = pageCount active
     \<and> length (pages doc') = pageCount active
     \<and> map rotation (pages doc') =
         map (\<lambda>(i, p). if i \<in> set ks then rotation p + degrees else rotation p)
           (enumerate 0 (pages active))
     \<and> arrayBuffer doc' =
         Pdf (map (\<lambda>(k, p). if k \<in> set ks then p\<lparr>angle := angle p + degrees\<rparr> else p)
               (enumerate 0 ps))"
proof -
  from assms(1,2) have "inSync rz active" by (rule wellFormed_active)
  then have len: "length (pages active) = pageCount active" by (simp add: inSync_def)
  define idxs where "idxs = map (\<lambda>k. Num (int k)) ks"
  define ps' where "ps' = map (\<lambda>(k, p). p\<lparr>angle := angle p
      + int (count_list idxs (Num (int k))) * degrees\<rparr>) (enumerate 0 ps)"
  have re: "rotateEach degrees ps idxs = Inr ps'"
    unfolding ps'_def using assms(8,9) by (intro rotateEach_eq) simp_all
  define g where "g = (\<lambda>(i, page :: PDFPageData). page\<lparr>thumbnail := elemAt (map (rz 0.3) ps') i,
      rotation := (if Num (int i) \<in> set idxs then rotation page + degrees else rotation page)\<rparr>)"
  define f where "f = (\<lambda>doc :: PDFDocument.
      doc\<lparr>arrayBuffer := Pdf ps', pages := map g (enumerate 0 (pages doc))\<rparr>)"
  have sel: "selectedIndices (docId active) (selectedPages st) = idxs"
    unfolding idxs_def assms(4) using assms(3) by (rule selectedIndices_plain_id)
  have h: "handleRotate rz st degrees =
      st\<lparr>documents := updateDoc (docId active) f (documents st)\<rparr>"
    using assms(2,4,5,7) sel re
    by (simp add: handleRotate_def rotatePages_def save_def Let_def f_def g_def)
  have fid: "docId (f d) = docId d" for d by (simp add: f_def)
  from assms(2) obtain a where a: "activeDocId st = Some a"
    and fa: "find (\<lambda>d. docId d = a) (documents st) = Some active"
    by (auto simp: activeDoc_def split: option.splits)
  then have a': "a = docId active" by (auto simp: find_Some_iff)
  have act: "activeDoc (handleRotate rz st degrees) = Some (f active)"
    unfolding h using a fa fid by (simp add: activeDoc_def a' find_updateDoc)
  have mem: "Num (int i) \<in> set idxs \<longleftrightarrow> i \<in> set ks" for i
    by (auto simp: idxs_def)
  have rot: "map rotation (pages (f active)) =
      map (\<lambda>(i, p). if i \<in> set ks then rotation p + degrees else rotation p)
        (enumerate 0 (pages active))"
    by (simp add: f_def g_def mem case_prod_beta comp_def)
  have buf: "ps' = map (\<lambda>(k, p). if k \<in> set ks then p\<lparr>angle := angle p + degrees\<rparr> else p)
      (enumerate 0 ps)"
    unfolding ps'_def idxs_def
    using assms(6) by (auto simp: count_list_positions)
  show ?thesis
    using act rot buf len by (intro exI [of _ "f active"]) (simp add: f_def)
qed

lemma handleDeletePages_plain:
  assumes "wellFormed rz st" "activeDoc st = Some active" "CHR ''-'' \<notin> set (docId active)"
    and "selectedPages st = map (selectionKey (docId active)) ks" "ks \<noteq> []" "distinct ks"
    and "\<forall>k \<in> set ks. k < pageCount active" "length ks < pageCount active"
    and "arrayBuffer active = Pdf ps"
  shows "\<exists>doc'. activeDoc (handleDeletePages rz st) = Some doc'
     \<and> pageCount doc' = pageCount active - length ks
     \<and> length (pages doc') = pageCount active - length ks
     \<and> arrayBuffer doc' = Pdf (map (\<lambda>k. ps ! k) (filter (\<lambda>i. i \<notin> set ks) [0..<length ps]))"
proof -
  from assms(1,2) have "inSync rz active" by (rule wellFormed_active)
  with assms(9) have len: "length (pages active) = pageCount active" "length ps = pageCount active"
    by (simp_all add: inSync_def)
  define del where "del = map (\<lambda>k. Num (int k)) ks"
  define remaining where "remaining = filter (\<lambda>i. i \<notin> set ks) [0..<length ps]"
  define ps' where "ps' = map (\<lambda>k. ps ! k) remaining"
  define newPages where
    "newPages = withThumbnails (map (rz 0.3) ps') (initializePages (length remaining))"
  define f where "f = (\<lambda>doc :: PDFDocument.
      doc\<lparr>arrayBuffer := Pdf ps', pageCount := length remaining, pages := newPages\<rparr>)"
  have sel: "selectedIndices (docId active) (selectedPages st) = del"
    unfolding del_def assms(4) using assms(3) by (rule selectedIndices_plain_id)
  have mem: "Num (int i) \<in> (\<lambda>k. Num (int k)) ` set ks \<longleftrightarrow> i \<in> set ks" for i
    by auto
  have "\<forall>k \<in> set remaining. k < length ps" by (simp add: remaining_def)
  then have ex: "extractPages (Pdf ps) (map (\<lambda>i. Num (int i)) remaining) = Inr (Pdf ps')"
    unfolding ps'_def by (rule extractPages_positions)
  have n: "length remaining = pageCount active - length ks"
    unfolding remaining_def len(2) using assms(6,7) by (rule length_filter_not_in)
  have h: "handleDeletePages rz st =
      st\<lparr>documents := updateDoc (docId active) f (documents st), selectedPages := []\<rparr>"
    using assms(2,4,5,8,9) sel ex [unfolded remaining_def] len
    by (simp add: handleDeletePages_def Let_def f_def newPages_def remaining_def del_def mem)
  have fid: "docId (f d) = docId d" for d by (simp add: f_def)
  from assms(2) obtain a where a: "activeDocId st = Some a"
    and fa: "find (\<lambda>d. docId d = a) (documents st) = Some active"
    by (auto simp: activeDoc_def split: option.splits)
  then have a': "a = docId active" by (auto simp: find_Some_iff)
  have act: "activeDoc (handleDeletePages rz st) = Some (f active)"
    unfolding h using a fa fid by (simp add: activeDoc_def a' find_updateDoc)
  show ?thesis
    using act n
    by (intro exI [of _ "f active"])
       (simp add: f_def newPages_def ps'_def remaining_def length_withThumbnails
          length_initializePages)
qed

lemma handleDeletePages_all_selected:
  assumes "activeDoc st = Some active"
    and "length (selectedIndices (docId active) (selectedPages st)) = pageCount active"
  shows "handleDeletePages rz st = st"
  using assms by (simp add: handleDeletePages_def Let_def)

end
